theory Spec2Isabelle
  imports
    Main
    "HOL-Library.Sublist"
    "HOL-Library.Signed_Division"
    "HOL-Library.Log_Nat"
    "HOL-Library.Monad_Syntax"
begin

unbundle bit_operations_syntax

section \<open>ECMAScript primitives the program relies on\<close>

text \<open>
  A JavaScript string is a \<^typ>\<open>string\<close> (code units below 256). The value
  \<open>undefined\<close> of an out-of-range array read is \<open>None\<close> of \<^typ>\<open>string option\<close>.
  The numbers the program computes with are integers, \<open>NaN\<close> and the infinities; they
  are the type \<open>js_number\<close> below, whose arithmetic rounds to the nearest double.
\<close>

subsection \<open>Array reads\<close>

definition js_nth :: "'a list \<Rightarrow> nat \<Rightarrow> 'a option" where
  "js_nth xs i = (if i < length xs then Some (xs ! i) else None)"

subsection \<open>String.prototype.split with a one-character separator\<close>

fun js_split :: "char \<Rightarrow> string \<Rightarrow> string list" where
  "js_split sep [] = [[]]"
| "js_split sep (c # cs) =
     (if c = sep then [] # js_split sep cs
      else (case js_split sep cs of [] \<Rightarrow> [[c]] | w # ws \<Rightarrow> (c # w) # ws))"

subsection \<open>String.prototype.split with a non-empty string separator\<close>

function js_split_str :: "string \<Rightarrow> string \<Rightarrow> string list" where
  "js_split_str sep s =
     (if sep = [] then map (\<lambda>c. [c]) s
      else if s = [] then [[]]
      else if prefix sep s then [] # js_split_str sep (drop (length sep) s)
      else (case js_split_str sep (tl s) of
              [] \<Rightarrow> [[hd s]]
            | w # ws \<Rightarrow> (hd s # w) # ws))"
  by pat_completeness auto
termination
  by (relation "measure (\<lambda>(sep, s). length s)") (auto simp: neq_Nil_conv)

declare js_split_str.simps [simp del]

subsection \<open>indexOf, lastIndexOf, substring, slice\<close>

text \<open>\<open>indexOf\<close> and \<open>lastIndexOf\<close> return \<open>None\<close> for \<open>-1\<close>.\<close>

fun js_indexOf :: "string \<Rightarrow> string \<Rightarrow> nat option" where
  "js_indexOf pat [] = (if pat = [] then Some 0 else None)"
| "js_indexOf pat (c # cs) =
     (if prefix pat (c # cs) then Some 0
      else map_option Suc (js_indexOf pat cs))"

fun js_lastIndexOf :: "string \<Rightarrow> string \<Rightarrow> nat option" where
  "js_lastIndexOf pat [] = (if pat = [] then Some 0 else None)"
| "js_lastIndexOf pat (c # cs) =
     (case js_lastIndexOf pat cs of
        Some k \<Rightarrow> Some (Suc k)
      | None \<Rightarrow> (if prefix pat (c # cs) then Some 0 else None))"

text \<open>\<open>s.substring(a, b)\<close>: both indices are clamped to the length and swapped when
  \<open>a > b\<close>.\<close>

definition js_substring :: "string \<Rightarrow> nat \<Rightarrow> nat \<Rightarrow> string" where
  "js_substring s a b =
     (let a' = min a (length s); b' = min b (length s);
          lo = min a' b'; hi = max a' b'
      in take (hi - lo) (drop lo s))"

text \<open>\<open>s.slice(-2)\<close>: the last two code units (all of \<open>s\<close> when it is shorter).\<close>

definition js_slice_last2 :: "string \<Rightarrow> string" where
  "js_slice_last2 s = drop (length s - 2) s"

subsection \<open>White space and trim\<close>

definition js_whitespace :: "char \<Rightarrow> bool" where
  "js_whitespace c = ((of_char c :: nat) \<in> {9, 10, 11, 12, 13, 32, 160})"

definition js_trim :: "string \<Rightarrow> string" where
  "js_trim s = rev (dropWhile js_whitespace (rev (dropWhile js_whitespace s)))"

subsection \<open>Digits\<close>

definition digit_of :: "char \<Rightarrow> nat option" where
  "digit_of c =
     (let n = (of_char c :: nat) in
      if 48 \<le> n \<and> n \<le> 57 then Some (n - 48)
      else if 97 \<le> n \<and> n \<le> 122 then Some (n - 87)
      else if 65 \<le> n \<and> n \<le> 90 then Some (n - 55)
      else None)"

definition radix_digit :: "nat \<Rightarrow> char \<Rightarrow> bool" where
  "radix_digit r c = (case digit_of c of Some d \<Rightarrow> d < r | None \<Rightarrow> False)"

definition digits_value :: "nat \<Rightarrow> string \<Rightarrow> nat" where
  "digits_value r ds = foldl (\<lambda>a c. a * r + the (digit_of c)) 0 ds"

subsection \<open>Numbers\<close>

text \<open>
  \<open>Num v\<close> is the double whose value is the integer \<open>v\<close>. \<open>round_double v\<close> is the
  double nearest to the integer \<open>v\<close>, ties to the even significand: integers below
  \<open>2^53\<close> in magnitude are doubles; a larger one with \<open>2^e \<le> |v| < 2^(e+1)\<close> lies
  between doubles \<open>2^(e-52)\<close> apart; from \<open>2^1024 - 2^970\<close> on the result is an
  infinity.
\<close>

datatype js_number = NaN | Num int | PosInfinity | NegInfinity

definition round_double :: "int \<Rightarrow> js_number" where
  "round_double v =
     (let a = nat \<bar>v\<bar> in
      if a < 2 ^ 53 then Num v
      else
        (let e = floorlog 2 a - 1;
             u = 2 ^ (e - 52);
             q = a div u;
             r = a mod u;
             q' = (if 2 * r < u then q else if u < 2 * r then q + 1
                   else if even q then q else q + 1);
             w = q' * u
         in if 2 ^ 1024 \<le> w then (if v < 0 then NegInfinity else PosInfinity)
            else Num ((if v < 0 then - 1 else 1) * int w)))"

fun js_neg :: "js_number \<Rightarrow> js_number" where
  "js_neg NaN = NaN"
| "js_neg (Num a) = Num (- a)"
| "js_neg PosInfinity = NegInfinity"
| "js_neg NegInfinity = PosInfinity"

fun js_add :: "js_number \<Rightarrow> js_number \<Rightarrow> js_number" where
  "js_add (Num a) (Num b) = round_double (a + b)"
| "js_add NaN _ = NaN"
| "js_add _ NaN = NaN"
| "js_add PosInfinity NegInfinity = NaN"
| "js_add NegInfinity PosInfinity = NaN"
| "js_add PosInfinity _ = PosInfinity"
| "js_add _ PosInfinity = PosInfinity"
| "js_add NegInfinity _ = NegInfinity"
| "js_add _ NegInfinity = NegInfinity"

definition js_sub :: "js_number \<Rightarrow> js_number \<Rightarrow> js_number" where
  "js_sub x y = js_add x (js_neg y)"

text \<open>The sign of a number: \<open>-1\<close>, \<open>0\<close> or \<open>1\<close> (\<open>NaN\<close> is not asked for its sign).\<close>

fun js_sgn :: "js_number \<Rightarrow> int" where
  "js_sgn (Num a) = sgn a"
| "js_sgn PosInfinity = 1"
| "js_sgn NegInfinity = - 1"
| "js_sgn NaN = 0"

fun js_mul :: "js_number \<Rightarrow> js_number \<Rightarrow> js_number" where
  "js_mul (Num a) (Num b) = round_double (a * b)"
| "js_mul NaN _ = NaN"
| "js_mul _ NaN = NaN"
| "js_mul x y =
     (if js_sgn x * js_sgn y = 0 then NaN
      else if js_sgn x * js_sgn y < 0 then NegInfinity else PosInfinity)"

text \<open>Comparisons: every comparison with \<open>NaN\<close> is false.\<close>

fun js_lt :: "js_number \<Rightarrow> js_number \<Rightarrow> bool" where
  "js_lt NaN _ = False"
| "js_lt _ NaN = False"
| "js_lt (Num a) (Num b) = (a < b)"
| "js_lt _ NegInfinity = False"
| "js_lt NegInfinity _ = True"
| "js_lt PosInfinity _ = False"
| "js_lt _ PosInfinity = True"

definition js_eq :: "js_number \<Rightarrow> js_number \<Rightarrow> bool" where
  "js_eq x y = (x \<noteq> NaN \<and> x = y)"

definition js_le :: "js_number \<Rightarrow> js_number \<Rightarrow> bool" where
  "js_le x y = (js_lt x y \<or> js_eq x y)"

definition js_gt :: "js_number \<Rightarrow> js_number \<Rightarrow> bool" where
  "js_gt x y = js_lt y x"

definition js_ge :: "js_number \<Rightarrow> js_number \<Rightarrow> bool" where
  "js_ge x y = js_le y x"

text \<open>
  \<open>Math.trunc(x / y)\<close> on integers. The quotient \<open>a / b\<close> of the magnitudes is rounded
  to a double and its fraction dropped. With \<open>n = a div b\<close>: from \<open>n \<ge> 2^52\<close> on the
  rounded quotient is an integer, the multiple of the spacing \<open>u\<close> nearest to \<open>a / b\<close>
  (ties to even); below, the fraction is dropped to \<open>n\<close> unless the quotient lies
  within half a spacing under \<open>n + 1\<close> and rounds up to it (the spacing under
  \<open>n + 1\<close> is \<open>2^(e-52)\<close> for \<open>2^e < n + 1\<close>, \<open>2^(e-53)\<close> for \<open>n + 1 = 2^e\<close>, and
  \<open>n + 1\<close> has an even significand). A zero \<open>y\<close> is taken as \<open>+0\<close>.
\<close>

definition trunc_quotient :: "nat \<Rightarrow> nat \<Rightarrow> nat" where
  "trunc_quotient a b =
     (let n = a div b in
      if 2 ^ 52 \<le> n then
        (let e = floorlog 2 n - 1;
             u = 2 ^ (e - 52);
             q = a div (b * u);
             r = a mod (b * u);
             q' = (if 2 * r < b * u then q else if b * u < 2 * r then q + 1
                   else if even q then q else q + 1)
         in q' * u)
      else
        (let e = floorlog 2 (n + 1) - 1;
             lo = (if n + 1 = 2 ^ e then 2 ^ e else 2 ^ (e + 1))
         in if ((n + 1) * 2 ^ 54 - lo) * b \<le> a * 2 ^ 54 then n + 1 else n))"

fun js_trunc_div :: "js_number \<Rightarrow> js_number \<Rightarrow> js_number" where
  "js_trunc_div (Num x) (Num y) =
     (if y = 0 then (if x = 0 then NaN else if x < 0 then NegInfinity else PosInfinity)
      else
        (let w = trunc_quotient (nat \<bar>x\<bar>) (nat \<bar>y\<bar>)
         in if 2 ^ 1024 \<le> w then (if sgn x * sgn y < 0 then NegInfinity else PosInfinity)
            else Num (sgn x * sgn y * int w)))"
| "js_trunc_div NaN _ = NaN"
| "js_trunc_div _ NaN = NaN"
| "js_trunc_div (Num x) _ = Num 0"
| "js_trunc_div x (Num y) =
     (if js_sgn x * (if y < 0 then - 1 else 1) < 0 then NegInfinity else PosInfinity)"
| "js_trunc_div _ _ = NaN"

text \<open>Storing a number into a \<open>Uint8Array\<close> or \<open>Uint16Array\<close> element, and the operand
  conversion of \<open>>>>\<close>: \<open>NaN\<close> and the infinities become 0, an integer is reduced modulo
  \<open>2^8\<close>, \<open>2^16\<close> or \<open>2^32\<close>.\<close>

fun toUintN :: "nat \<Rightarrow> js_number \<Rightarrow> nat" where
  "toUintN n (Num v) = nat (v mod 2 ^ n)"
| "toUintN n _ = 0"

definition toUint8 :: "js_number \<Rightarrow> nat" where
  "toUint8 x = toUintN 8 x"

definition toUint16 :: "js_number \<Rightarrow> nat" where
  "toUint16 x = toUintN 16 x"

definition toUint32 :: "js_number \<Rightarrow> nat" where
  "toUint32 x = toUintN 32 x"

subsection \<open>parseInt, Number.prototype.toString\<close>

text \<open>
  \<open>parseInt(s, R)\<close> with \<open>R\<close> missing (\<open>None\<close>) or given: leading white space is
  skipped, one sign is read, a \<open>0x\<close>/\<open>0X\<close> prefix selects radix 16 when the radix is
  missing or 16, the longest run of digits of the radix is read, and no digit at all
  gives \<open>NaN\<close>. The value read is rounded to a double.
\<close>

definition js_parseInt_radix :: "nat option \<Rightarrow> string \<Rightarrow> js_number" where
  "js_parseInt_radix R s =
     (let s1 = dropWhile js_whitespace s;
          neg = (s1 \<noteq> [] \<and> hd s1 = CHR ''-'');
          s2 = (if s1 \<noteq> [] \<and> (hd s1 = CHR ''-'' \<or> hd s1 = CHR ''+'') then tl s1 else s1);
          hex = (prefix ''0x'' s2 \<or> prefix ''0X'' s2);
          strip = (hex \<and> (R = None \<or> R = Some 16));
          r = (case R of None \<Rightarrow> (if hex then 16 else 10) | Some r' \<Rightarrow> r');
          s3 = (if strip then drop 2 s2 else s2);
          ds = takeWhile (radix_digit r) s3
      in if ds = [] then NaN
         else round_double ((if neg then - 1 else 1) * int (digits_value r ds)))"

text \<open>\<open>parseInt(x)\<close> and \<open>parseInt(x, 16)\<close> on a value that may be \<open>undefined\<close>
  (\<open>parseInt(undefined)\<close> is \<open>NaN\<close> in both radices: \<open>u\<close> is no hexadecimal digit).\<close>

definition js_parseInt :: "string option \<Rightarrow> js_number" where
  "js_parseInt x = (case x of None \<Rightarrow> NaN | Some s \<Rightarrow> js_parseInt_radix None s)"

definition js_parseInt16 :: "string option \<Rightarrow> js_number" where
  "js_parseInt16 x = (case x of None \<Rightarrow> NaN | Some s \<Rightarrow> js_parseInt_radix (Some 16) s)"

definition digit_char :: "nat \<Rightarrow> char" where
  "digit_char d = (if d < 10 then char_of (48 + d) else char_of (87 + d))"

text \<open>\<open>n.toString()\<close> and \<open>n.toString(16)\<close> of a non-negative integer.\<close>

function nat_toString_radix :: "nat \<Rightarrow> nat \<Rightarrow> string" where
  "nat_toString_radix r n =
     (if n < r \<or> r < 2 then [digit_char n]
      else nat_toString_radix r (n div r) @ [digit_char (n mod r)])"
  by pat_completeness auto
termination
  by (relation "measure (\<lambda>(r, n). n)") auto

declare nat_toString_radix.simps [simp del]

definition nat_toString :: "nat \<Rightarrow> string" where
  "nat_toString n = nat_toString_radix 10 n"

definition nat_toString16 :: "nat \<Rightarrow> string" where
  "nat_toString16 n = nat_toString_radix 16 n"

subsection \<open>Number.isInteger(+s)\<close>

text \<open>
  \<open>+s\<close> converts a string by the grammar \<open>StringNumericLiteral\<close>: white space around
  an empty text (value 0), a binary, octal or hexadecimal literal without sign, or a
  signed decimal literal (\<open>Infinity\<close>, digits with an optional fraction and exponent);
  anything else is \<open>NaN\<close>. \<open>Number.isInteger\<close> holds of a finite number without
  fraction. A decimal literal is read as mantissa digits \<open>m\<close> and a power of ten
  \<open>10^k\<close>; the value is rounded to the nearest double (ties to even), which is written
  out below on exact integers.
\<close>

definition is_decimal_digit :: "char \<Rightarrow> bool" where
  "is_decimal_digit c = radix_digit 10 c"

text \<open>The least value that rounds to \<open>Infinity\<close>.\<close>

definition double_overflow :: nat where
  "double_overflow = 2 ^ 1024 - 2 ^ 970"

text \<open>\<open>rounds_to_int m d n\<close>: the double nearest to \<open>m / 10^d\<close> is the integer \<open>n\<close>, for
  \<open>n \<le> 2^52\<close>. Next to \<open>n \<ge> 1\<close> with \<open>2^e \<le> n < 2^(e+1)\<close> the doubles are
  \<open>2^(e-52)\<close> apart (\<open>2^(e-53)\<close> below a power of two) and \<open>n\<close> has an even
  significand, so both half-way points round to \<open>n\<close>; inequalities are scaled by
  \<open>2^54 * 10^d\<close>.\<close>

definition rounds_to_int :: "nat \<Rightarrow> nat \<Rightarrow> nat \<Rightarrow> bool" where
  "rounds_to_int m d n =
     (if n = 0 then m * 2 ^ 1075 \<le> 10 ^ d
      else let e = floorlog 2 n - 1;
               hi = 2 ^ (e + 1);
               lo = (if n = 2 ^ e then 2 ^ e else 2 ^ (e + 1))
           in (n * 2 ^ 54 - lo) * 10 ^ d \<le> m * 2 ^ 54 \<and> m * 2 ^ 54 \<le> (n * 2 ^ 54 + hi) * 10 ^ d)"

text \<open>\<open>decimal_is_integer m k\<close>: the double nearest to \<open>m * 10^k\<close> is finite and has no
  fraction.\<close>

definition decimal_is_integer :: "nat \<Rightarrow> int \<Rightarrow> bool" where
  "decimal_is_integer m k =
     (if m = 0 then True
      else if 0 \<le> k then m * 10 ^ nat k < double_overflow
      else let d = nat (- k); n0 = m div 10 ^ d
           in if 2 ^ 52 \<le> n0 then n0 < double_overflow
              else rounds_to_int m d n0 \<or> rounds_to_int m d (n0 + 1))"

text \<open>The exponent part \<open>e\<close>/\<open>E\<close>, optional sign, digits; \<open>None\<close> when malformed,
  \<open>Some 0\<close> when absent.\<close>

definition exponent_part :: "string \<Rightarrow> int option" where
  "exponent_part s =
     (if s = [] then Some 0
      else if hd s = CHR ''e'' \<or> hd s = CHR ''E'' then
        (let t = tl s;
             neg = (t \<noteq> [] \<and> hd t = CHR ''-'');
             ds = (if t \<noteq> [] \<and> (hd t = CHR ''-'' \<or> hd t = CHR ''+'') then tl t else t)
         in if ds \<noteq> [] \<and> list_all is_decimal_digit ds
            then Some ((if neg then - 1 else 1) * int (digits_value 10 ds))
            else None)
      else None)"

text \<open>An unsigned decimal literal other than \<open>Infinity\<close>: \<open>Some\<close> of its integrality, or
  \<open>None\<close> when the text is no such literal.\<close>

definition unsigned_decimal_is_integer :: "string \<Rightarrow> bool option" where
  "unsigned_decimal_is_integer s =
     (let ip = takeWhile is_decimal_digit s;
          r1 = dropWhile is_decimal_digit s;
          dot = (r1 \<noteq> [] \<and> hd r1 = CHR ''.'');
          fp = (if dot then takeWhile is_decimal_digit (tl r1) else []);
          r2 = (if dot then dropWhile is_decimal_digit (tl r1) else r1)
      in if ip = [] \<and> fp = [] then None
         else (case exponent_part r2 of
                 None \<Rightarrow> None
               | Some ex \<Rightarrow>
                   Some (decimal_is_integer (digits_value 10 (ip @ fp)) (ex - int (length fp)))))"

definition radix_literal_is_integer :: "nat \<Rightarrow> string \<Rightarrow> bool option" where
  "radix_literal_is_integer r ds =
     (if ds \<noteq> [] \<and> list_all (radix_digit r) ds
      then Some (digits_value r ds < double_overflow) else None)"

text \<open>\<open>Number.isInteger(+s)\<close>.\<close>

definition js_isIntegerString :: "string \<Rightarrow> bool" where
  "js_isIntegerString s =
     (let t = js_trim s in
      if t = [] then True
      else if prefix ''0x'' t \<or> prefix ''0X'' t then
        (case radix_literal_is_integer 16 (drop 2 t) of Some b \<Rightarrow> b | None \<Rightarrow> False)
      else if prefix ''0o'' t \<or> prefix ''0O'' t then
        (case radix_literal_is_integer 8 (drop 2 t) of Some b \<Rightarrow> b | None \<Rightarrow> False)
      else if prefix ''0b'' t \<or> prefix ''0B'' t then
        (case radix_literal_is_integer 2 (drop 2 t) of Some b \<Rightarrow> b | None \<Rightarrow> False)
      else
        (let u = (if hd t = CHR ''-'' \<or> hd t = CHR ''+'' then tl t else t)
         in if u = ''Infinity'' then False
            else (case unsigned_decimal_is_integer u of Some b \<Rightarrow> b | None \<Rightarrow> False)))"

section \<open>Constants of the program\<close>

definition PROTOCOL_TYPE_BIT_NONE :: nat where "PROTOCOL_TYPE_BIT_NONE = 0x0000"
definition PROTOCOL_TYPE_BIT_IP :: nat where "PROTOCOL_TYPE_BIT_IP = 0x0001"
definition PROTOCOL_TYPE_BIT_ICMP_ICMP6 :: nat where "PROTOCOL_TYPE_BIT_ICMP_ICMP6 = 0x0002"
definition PROTOCOL_TYPE_BIT_TCP_UDP_SCTP :: nat where "PROTOCOL_TYPE_BIT_TCP_UDP_SCTP = 0x0004"
definition PROTOCOL_TYPE_BIT_UNSUPPORTED :: nat where "PROTOCOL_TYPE_BIT_UNSUPPORTED = 0x1000"

datatype lookup_address_type =
    LOOKUP_ADDRESS_TYPE_UNKNOWN
  | LOOKUP_ADDRESS_TYPE_IPV4
  | LOOKUP_ADDRESS_TYPE_IPV6
  | LOOKUP_ADDRESS_TYPE_FQDN
  | LOOKUP_ADDRESS_TYPE_GEO

definition NMCOL_DOM_NAME :: nat where "NMCOL_DOM_NAME = 0"
definition NMCOL_SRC_INTF :: nat where "NMCOL_SRC_INTF = 1"
definition NMCOL_DST_INTF :: nat where "NMCOL_DST_INTF = 2"
definition NMCOL_POL_TYPE :: nat where "NMCOL_POL_TYPE = 3"
definition NMCOL_ACTION :: nat where "NMCOL_ACTION = 7"
definition NMCOL_PROTOCOL :: nat where "NMCOL_PROTOCOL = 8"
definition NMCOL_SRC_ADDR :: nat where "NMCOL_SRC_ADDR = 9"
definition NMCOL_DST_ADDR :: nat where "NMCOL_DST_ADDR = 11"
definition NMCOL_SERVICE_DSTADDR :: nat where "NMCOL_SERVICE_DSTADDR = 13"
definition NMCOL_SRCADDR_NEGATE :: nat where "NMCOL_SRCADDR_NEGATE = 15"
definition NMCOL_DSTADDR_NEGATE :: nat where "NMCOL_DSTADDR_NEGATE = 16"
definition NMCOL_SERVICE_NEGATE :: nat where "NMCOL_SERVICE_NEGATE = 17"
definition NMCOL_STATUS :: nat where "NMCOL_STATUS = 18"

section \<open>Protocol classes\<close>

definition isIpProtocol :: "string \<Rightarrow> bool" where
  "isIpProtocol str = (str = ''ip'')"

definition isIcmpProtocol :: "string \<Rightarrow> bool" where
  "isIcmpProtocol str = (str = ''1'')"

definition isIcmp6Protocol :: "string \<Rightarrow> bool" where
  "isIcmp6Protocol str = (str = ''58'')"

definition isTcpProtocol :: "string \<Rightarrow> bool" where
  "isTcpProtocol str = (str = ''6'')"

definition isUdpProtocol :: "string \<Rightarrow> bool" where
  "isUdpProtocol str = (str = ''17'')"

definition isSctpProtocol :: "string \<Rightarrow> bool" where
  "isSctpProtocol str = (str = ''132'')"

definition getProtocolTypeBit :: "string \<Rightarrow> nat" where
  "getProtocolTypeBit strProtocol =
     (if isIcmpProtocol strProtocol then PROTOCOL_TYPE_BIT_NONE OR PROTOCOL_TYPE_BIT_ICMP_ICMP6
      else if isIcmp6Protocol strProtocol then PROTOCOL_TYPE_BIT_NONE OR PROTOCOL_TYPE_BIT_ICMP_ICMP6
      else if isTcpProtocol strProtocol then PROTOCOL_TYPE_BIT_NONE OR PROTOCOL_TYPE_BIT_TCP_UDP_SCTP
      else if isUdpProtocol strProtocol then PROTOCOL_TYPE_BIT_NONE OR PROTOCOL_TYPE_BIT_TCP_UDP_SCTP
      else if isSctpProtocol strProtocol then PROTOCOL_TYPE_BIT_NONE OR PROTOCOL_TYPE_BIT_TCP_UDP_SCTP
      else if isIpProtocol strProtocol then PROTOCOL_TYPE_BIT_NONE OR PROTOCOL_TYPE_BIT_IP
      else if js_isIntegerString strProtocol then PROTOCOL_TYPE_BIT_NONE OR PROTOCOL_TYPE_BIT_IP
      else if strProtocol = ''undefined'' then PROTOCOL_TYPE_BIT_NONE
      else PROTOCOL_TYPE_BIT_NONE OR PROTOCOL_TYPE_BIT_UNSUPPORTED)"

text \<open>The leading protocol token of a service value: \<open>v.split(';')[0].split('/')[0]\<close>.\<close>

definition leadingProtocolToken :: "string \<Rightarrow> string" where
  "leadingProtocolToken v = hd (js_split CHR ''/'' (hd (js_split CHR '';'' v)))"

definition getProtocolTypeBitsOfArray :: "string list \<Rightarrow> nat" where
  "getProtocolTypeBitsOfArray arrayServicePortCondition =
     foldl (\<lambda>intProtocolTypeBits v. intProtocolTypeBits OR getProtocolTypeBit (leadingProtocolToken v))
       PROTOCOL_TYPE_BIT_NONE arrayServicePortCondition"

section \<open>IPv4 primitives\<close>

datatype js_error = TypeError

text \<open>\<open>new Uint8Array([parseInt(a[0]), parseInt(a[1]), parseInt(a[2]), parseInt(a[3])])\<close>
  for \<open>a = s.split('.')\<close>: a missing or unreadable octet is stored as 0.\<close>

definition ipv4_octets :: "string \<Rightarrow> nat list" where
  "ipv4_octets s =
     map (\<lambda>i. toUint8 (js_parseInt (js_nth (js_split CHR ''.'' s) i))) [0, 1, 2, 3]"

text \<open>\<open>o[0].toString() + '.' + o[1].toString() + '.' + o[2].toString() + '.' +
  o[3].toString()\<close>.\<close>

definition octets_toString :: "nat list \<Rightarrow> string" where
  "octets_toString os =
     nat_toString (os ! 0) @ ''.'' @ nat_toString (os ! 1) @ ''.'' @
     nat_toString (os ! 2) @ ''.'' @ nat_toString (os ! 3)"

definition getBitwiseANDedIPv4Addr :: "string \<Rightarrow> string \<Rightarrow> string" where
  "getBitwiseANDedIPv4Addr strIPv4AddrA strIPv4AddrB =
     octets_toString (map2 (\<lambda>a b. a AND b) (ipv4_octets strIPv4AddrA) (ipv4_octets strIPv4AddrB))"

definition getBitwiseORedIPv4Addr :: "string \<Rightarrow> string \<Rightarrow> string" where
  "getBitwiseORedIPv4Addr strIPv4AddrA strIPv4AddrB =
     octets_toString (map2 (\<lambda>a b. a OR b) (ipv4_octets strIPv4AddrA) (ipv4_octets strIPv4AddrB))"

definition getBitwiseANDedIPv4AddrWithInvertBits :: "string \<Rightarrow> string \<Rightarrow> string" where
  "getBitwiseANDedIPv4AddrWithInvertBits strIPv4AddrA strIPv4AddrB =
     octets_toString
       (map2 (\<lambda>a b. a AND (b XOR 0xFF)) (ipv4_octets strIPv4AddrA) (ipv4_octets strIPv4AddrB))"

definition getBitwiseORedIPv4AddrWithInvertBits :: "string \<Rightarrow> string \<Rightarrow> string" where
  "getBitwiseORedIPv4AddrWithInvertBits strIPv4AddrA strIPv4AddrB =
     octets_toString
       (map2 (\<lambda>a b. a OR (b XOR 0xFF)) (ipv4_octets strIPv4AddrA) (ipv4_octets strIPv4AddrB))"

definition getIPv4StartAddr :: "string \<Rightarrow> string \<Rightarrow> string" where
  "getIPv4StartAddr strIPv4Addr strIPv4NetMask = getBitwiseANDedIPv4Addr strIPv4Addr strIPv4NetMask"

definition getIPv4EndAddr :: "string \<Rightarrow> string \<Rightarrow> string" where
  "getIPv4EndAddr strIPv4Addr strIPv4NetMask =
     getBitwiseORedIPv4AddrWithInvertBits strIPv4Addr strIPv4NetMask"

text \<open>The inner loop of \<open>getPrefixLengthFromIPv4NetMask\<close>, \<open>j\<close> running from
  \<open>n - 1\<close> down to 0, with its \<open>break\<close>.\<close>

fun countMaskBits :: "nat \<Rightarrow> nat \<Rightarrow> nat \<Rightarrow> nat" where
  "countMaskBits 0 bytMask intPrefixLength = intPrefixLength"
| "countMaskBits (Suc j) bytMask intPrefixLength =
     (if bytMask \<ge> 2 ^ j then countMaskBits j (bytMask - 2 ^ j) (intPrefixLength + 1)
      else if bytMask = 0 then intPrefixLength
      else countMaskBits j bytMask intPrefixLength)"

definition getPrefixLengthFromIPv4NetMask :: "string \<Rightarrow> nat" where
  "getPrefixLengthFromIPv4NetMask strIPv4NetMask =
     foldl (\<lambda>intPrefixLength bytMask. countMaskBits 8 bytMask intPrefixLength) 0
       (ipv4_octets strIPv4NetMask)"

definition getIPv4AddrWithPrefixLength :: "string \<Rightarrow> string \<Rightarrow> string" where
  "getIPv4AddrWithPrefixLength strIPv4Addr strIPv4NetMask =
     strIPv4Addr @ ''/'' @ nat_toString (getPrefixLengthFromIPv4NetMask strIPv4NetMask)"

text \<open>
  \<open>256 - Math.pow(2, 8 - n)\<close>, given as the integer part of the double (the one use
  stores it in a \<open>Uint8Array\<close>, which drops the fraction). With \<open>k = 8 - n\<close>:
  \<open>2^k\<close> is infinite from \<open>k = 1024\<close> on; for \<open>0 \<le> k\<close> the difference is an integer;
  for \<open>-45 \<le> k < 0\<close> it lies strictly between 255 and 256; below, it rounds to 256.
\<close>

definition getOctetNetMaskFromOctetPrefixLength :: "js_number \<Rightarrow> js_number" where
  "getOctetNetMaskFromOctetPrefixLength intOctetPrefixLength =
     (case js_sub (Num 8) intOctetPrefixLength of
        NaN \<Rightarrow> NaN
      | PosInfinity \<Rightarrow> NegInfinity
      | NegInfinity \<Rightarrow> Num 256
      | Num k \<Rightarrow>
          if 1024 \<le> k then NegInfinity
          else if 0 \<le> k then round_double (256 - 2 ^ nat k)
          else if - 45 \<le> k then Num 255
          else Num 256)"

definition getIPv4NetMaskFromPrefixLength :: "js_number \<Rightarrow> string" where
  "getIPv4NetMaskFromPrefixLength intIPv4PrefixLength =
     octets_toString
       (if js_lt intIPv4PrefixLength (Num 8) then
          [toUint8 (getOctetNetMaskFromOctetPrefixLength intIPv4PrefixLength), 0, 0, 0]
        else if js_lt intIPv4PrefixLength (Num 16) then
          [255, toUint8 (getOctetNetMaskFromOctetPrefixLength (js_sub intIPv4PrefixLength (Num 8))), 0, 0]
        else if js_lt intIPv4PrefixLength (Num 24) then
          [255, 255, toUint8 (getOctetNetMaskFromOctetPrefixLength (js_sub intIPv4PrefixLength (Num 16))), 0]
        else
          [255, 255, 255,
           toUint8 (getOctetNetMaskFromOctetPrefixLength (js_sub intIPv4PrefixLength (Num 24)))])"

text \<open>\<open>toIPv4AddrInteger\<close>: the four parsed octets, combined in double arithmetic.\<close>

definition toIPv4AddrInteger :: "string \<Rightarrow> js_number" where
  "toIPv4AddrInteger strIPv4Addr =
     (let arrayIPv4Octet = js_split CHR ''.'' strIPv4Addr in
      js_add
        (js_add
          (js_add (js_mul (js_parseInt (js_nth arrayIPv4Octet 0)) (Num 16777216))
                  (js_mul (js_parseInt (js_nth arrayIPv4Octet 1)) (Num 65536)))
          (js_mul (js_parseInt (js_nth arrayIPv4Octet 2)) (Num 256)))
        (js_parseInt (js_nth arrayIPv4Octet 3)))"

text \<open>\<open>toIPv4AddrString\<close>: \<open>>>>\<close> first converts its operand to an unsigned 32-bit
  integer.\<close>

definition toIPv4AddrString :: "js_number \<Rightarrow> string" where
  "toIPv4AddrString intIPv4AddrInteger =
     (let u = toUint32 intIPv4AddrInteger in
      octets_toString
        [drop_bit 24 u AND 0xFF, drop_bit 16 u AND 0xFF, drop_bit 8 u AND 0xFF, u AND 0xFF])"

section \<open>IPv4 containment predicates\<close>

definition isIPv4WithPrefixLengthIncludedInSegment :: "string \<Rightarrow> string \<Rightarrow> bool" where
  "isIPv4WithPrefixLengthIncludedInSegment strTestIPv4WithPrefixLength
       strIPv4SegmentNetworkAddrWithPrefixLength =
     (let arrayStrTestIPv4 = js_split CHR ''/'' strTestIPv4WithPrefixLength;
          arrayStrIPv4SegmentNetworkAddr = js_split CHR ''/'' strIPv4SegmentNetworkAddrWithPrefixLength;
          strTestIPv4Addr = hd arrayStrTestIPv4;
          intTestIPv4PrefixLength0 = js_parseInt (js_nth arrayStrTestIPv4 1);
          strTestIPv4NetworkAddr0 =
            getIPv4StartAddr strTestIPv4Addr (getIPv4NetMaskFromPrefixLength intTestIPv4PrefixLength0);
          intIPv4SegmentPrefixLength = js_parseInt (js_nth arrayStrIPv4SegmentNetworkAddr 1);
          strIPv4SegmentNetMask = getIPv4NetMaskFromPrefixLength intIPv4SegmentPrefixLength;
          strIPv4SegmentNetworkAddr =
            getIPv4StartAddr (hd arrayStrIPv4SegmentNetworkAddr) strIPv4SegmentNetMask;
          host = (strTestIPv4NetworkAddr0 \<noteq> strTestIPv4Addr);
          intTestIPv4PrefixLength = (if host then Num 32 else intTestIPv4PrefixLength0);
          strTestIPv4NetworkAddr = (if host then strTestIPv4Addr else strTestIPv4NetworkAddr0)
      in if js_eq intTestIPv4PrefixLength intIPv4SegmentPrefixLength then
           strTestIPv4NetworkAddr = strIPv4SegmentNetworkAddr
         else if js_gt intTestIPv4PrefixLength intIPv4SegmentPrefixLength then
           getIPv4StartAddr strTestIPv4Addr strIPv4SegmentNetMask = strIPv4SegmentNetworkAddr
         else False)"

text \<open>\<open>compareIPv4\<close>: octets are compared as parsed numbers, left to right; a comparison
  with \<open>NaN\<close> is false both ways, so such a pair of octets decides nothing. The second
  address is \<open>undefined\<close> when a range has no second part, and \<open>undefined.split\<close>
  throws.\<close>

fun compareOctets :: "js_number list \<Rightarrow> js_number list \<Rightarrow> int" where
  "compareOctets (a # as) (b # bs) =
     (if js_gt a b then 1 else if js_lt a b then - 1 else compareOctets as bs)"
| "compareOctets _ _ = 0"

definition parsedOctets :: "string \<Rightarrow> js_number list" where
  "parsedOctets s = map (\<lambda>i. js_parseInt (js_nth (js_split CHR ''.'' s) i)) [0, 1, 2, 3]"

definition compareIPv4 :: "string \<Rightarrow> string option \<Rightarrow> js_error + int" where
  "compareIPv4 strIPv4_1 strIPv4_2 =
     (case strIPv4_2 of
        None \<Rightarrow> Inl TypeError
      | Some s2 \<Rightarrow> Inr (compareOctets (parsedOctets strIPv4_1) (parsedOctets s2)))"

definition isIPv4WithPrefixLengthIncludedInRange :: "string \<Rightarrow> string \<Rightarrow> js_error + bool" where
  "isIPv4WithPrefixLengthIncludedInRange strTestIPv4WithPrefixLength strIPv4Range =
     (let arrayStrTestIPv4 = js_split CHR ''/'' strTestIPv4WithPrefixLength;
          arrayStrIPv4Range = js_split CHR ''-'' strIPv4Range;
          strTestIPv4Addr = hd arrayStrTestIPv4;
          intTestIPv4PrefixLength = js_parseInt (js_nth arrayStrTestIPv4 1);
          strTestIPv4NetMask = getIPv4NetMaskFromPrefixLength intTestIPv4PrefixLength;
          strTestIPv4Start0 = getIPv4StartAddr strTestIPv4Addr strTestIPv4NetMask;
          strTestIPv4End0 = getIPv4EndAddr strTestIPv4Addr strTestIPv4NetMask;
          host = (strTestIPv4Addr \<noteq> strTestIPv4Start0);
          strTestIPv4Start = (if host then strTestIPv4Addr else strTestIPv4Start0);
          strTestIPv4End = (if host then strTestIPv4Addr else strTestIPv4End0)
      in case compareIPv4 strTestIPv4Start (js_nth arrayStrIPv4Range 0) of
           Inl e \<Rightarrow> Inl e
         | Inr c1 \<Rightarrow>
             if c1 \<ge> 0 then
               (case compareIPv4 strTestIPv4End (js_nth arrayStrIPv4Range 1) of
                  Inl e \<Rightarrow> Inl e
                | Inr c2 \<Rightarrow> Inr (c2 \<le> 0))
             else Inr False)"

text \<open>The Fortinet wildcard predicate. The mask is \<open>undefined\<close> when the stored value has
  no \<open>/\<close>; the first bitwise helper then throws on \<open>undefined.split\<close>.\<close>

definition isIPv4WithPrefixLengthIncludedInFortinetWildcardAddr ::
    "string \<Rightarrow> string \<Rightarrow> js_error + bool" where
  "isIPv4WithPrefixLengthIncludedInFortinetWildcardAddr strTestIPv4WithPrefixLength
       strIPv4AddrWithWildcardMask =
     (let arrayStrTestIPv4 = js_split CHR ''/'' strTestIPv4WithPrefixLength;
          arrayStrIPv4Wildcard = js_split CHR ''/'' strIPv4AddrWithWildcardMask;
          strTestIPv4Addr = hd arrayStrTestIPv4;
          intTestIPv4PrefixLength = js_parseInt (js_nth arrayStrTestIPv4 1);
          strTestIPv4NetworkAddr =
            getIPv4StartAddr strTestIPv4Addr (getIPv4NetMaskFromPrefixLength intTestIPv4PrefixLength);
          strIPv4WildcardAddr = hd arrayStrIPv4Wildcard
      in case js_nth arrayStrIPv4Wildcard 1 of
           None \<Rightarrow> Inl TypeError
         | Some strIPv4WildcardMask \<Rightarrow>
             (let strIPv4WildcardAddrMaskbits0 =
                    getBitwiseANDedIPv4Addr strIPv4WildcardAddr strIPv4WildcardMask;
                  strIPv4WildcardAddrMaskbits1 =
                    getBitwiseORedIPv4AddrWithInvertBits strIPv4WildcardAddr strIPv4WildcardMask
              in if js_eq intTestIPv4PrefixLength (Num 32) \<or> strTestIPv4NetworkAddr \<noteq> strTestIPv4Addr then
                   Inr (getBitwiseANDedIPv4Addr strTestIPv4Addr strIPv4WildcardMask
                          = strIPv4WildcardAddrMaskbits0
                        \<and> getBitwiseORedIPv4AddrWithInvertBits strTestIPv4Addr strIPv4WildcardMask
                          = strIPv4WildcardAddrMaskbits1)
                 else
                   (let strTestIPv4BroadcastAddr =
                          getIPv4EndAddr strTestIPv4Addr
                            (getIPv4NetMaskFromPrefixLength intTestIPv4PrefixLength)
                    in Inr (getBitwiseANDedIPv4Addr strTestIPv4NetworkAddr strIPv4WildcardMask
                              = strIPv4WildcardAddrMaskbits0
                            \<and> getBitwiseORedIPv4AddrWithInvertBits strTestIPv4NetworkAddr strIPv4WildcardMask
                              = strIPv4WildcardAddrMaskbits1
                            \<and> getBitwiseANDedIPv4Addr strTestIPv4BroadcastAddr strIPv4WildcardMask
                              = strIPv4WildcardAddrMaskbits0
                            \<and> getBitwiseORedIPv4AddrWithInvertBits strTestIPv4BroadcastAddr strIPv4WildcardMask
                              = strIPv4WildcardAddrMaskbits1))))"

section \<open>IPv4 range to CIDR blocks\<close>

text \<open>
  \<open>makeIPv4SubnetFromRange\<close> appends to the array it is given; the model takes the
  array and returns it extended. Its numbers are doubles, so every sum, difference,
  product and \<open>Math.trunc\<close> of a quotient is the rounded one.

  The inner \<open>while\<close> loop can run forever (a segment size that is not positive, or an
  addition that rounding absorbs), so it is a partial function: \<open>None\<close> is a loop that
  does not return.
\<close>

partial_function (option) emitSegments ::
    "nat \<Rightarrow> js_number \<Rightarrow> js_number \<Rightarrow> js_number \<Rightarrow> string list \<Rightarrow>
     (js_number \<times> string list) option" where
  "emitSegments i intSegSize intBlockEnd intSegStart arraySave =
     (if js_le (js_sub (js_add intSegStart intSegSize) (Num 1)) intBlockEnd then
        emitSegments i intSegSize intBlockEnd (js_add intSegStart intSegSize)
          (arraySave @ [toIPv4AddrString intSegStart @ ''/'' @ nat_toString i])
      else Some (intSegStart, arraySave))"

text \<open>
  The \<open>for\<close> loop from iteration \<open>i\<close> on, with the current values of the loop
  variables; \<open>recurse\<close> stands for the two recursive calls of the function.
\<close>

function subnetLoop ::
    "(js_number \<Rightarrow> js_number \<Rightarrow> string list \<Rightarrow> string list option) \<Rightarrow>
     nat \<Rightarrow> js_number \<Rightarrow> js_number \<Rightarrow> js_number \<Rightarrow> string list \<Rightarrow> string list option" where
  "subnetLoop recurse i intSegSize intStartAddr intEndAddr arraySave =
     (if i \<le> 32 then
        (let intBlockStart =
               js_mul (js_trunc_div (js_sub (js_add intStartAddr intSegSize) (Num 1)) intSegSize)
                 intSegSize;
             intBlockEnd =
               js_sub (js_mul (js_trunc_div (js_add intEndAddr (Num 1)) intSegSize) intSegSize)
                 (Num 1)
         in if js_le intBlockStart intBlockEnd then
              do {
                a1 \<leftarrow> (if js_lt intStartAddr intBlockStart
                       then recurse intStartAddr (js_sub intBlockStart (Num 1)) arraySave
                       else Some arraySave);
                (intSegStart, a2) \<leftarrow> emitSegments i intSegSize intBlockEnd intBlockStart a1;
                a3 \<leftarrow> (if js_lt intBlockEnd intEndAddr
                       then recurse (js_add intBlockEnd (Num 1)) intEndAddr a2
                       else Some a2);
                subnetLoop recurse (i + 1) (js_trunc_div intSegSize (Num 2)) intSegStart
                  (if js_lt intBlockEnd intEndAddr then intBlockEnd else intEndAddr) a3
              }
            else subnetLoop recurse (i + 1) (js_trunc_div intSegSize (Num 2))
                   intStartAddr intEndAddr arraySave)
      else Some arraySave)"
  by pat_completeness auto
termination
  by (relation "measure (\<lambda>(recurse, i, intSegSize, intStartAddr, intEndAddr, arraySave). 33 - i)")
     auto

declare subnetLoop.simps [simp del]

lemma subnetLoop_mono [partial_function_mono]:
  assumes "\<And>s e a. mono_option (\<lambda>f. R f s e a)"
  shows "mono_option (\<lambda>f. subnetLoop (R f) i seg s e a)"
proof (induction "33 - i" arbitrary: i seg s e a)
  case 0
  then have "\<not> i \<le> 32" by simp
  then show ?case by (subst subnetLoop.simps) (simp add: option.const_mono)
next
  case (Suc n)
  have IH: "\<And>seg s e a. mono_option (\<lambda>f. subnetLoop (R f) (i + 1) seg s e a)"
    using Suc.hyps(1)[of "i + 1"] Suc.hyps(2) by simp
  show ?case
    apply (subst subnetLoop.simps)
    apply (simp only: Let_def case_prod_unfold)
    apply (intro partial_function_mono assms IH)
    done
qed

text \<open>The function itself: the loop from \<open>i = 1\<close> with segment size \<open>2^31\<close>, its recursive
  calls being calls of the function.\<close>

partial_function (option) makeIPv4SubnetFromRange ::
    "js_number \<Rightarrow> js_number \<Rightarrow> string list \<Rightarrow> string list option" where
  "makeIPv4SubnetFromRange intStartAddr intEndAddr arraySave =
     subnetLoop makeIPv4SubnetFromRange 1 (Num 2147483648) intStartAddr intEndAddr arraySave"

text \<open>
  The addresses of a CIDR token \<open>a.b.c.d/p\<close>: the 32-bit addresses that agree with
  \<open>a.b.c.d\<close> on the first \<open>p\<close> bits. A text that is no such token denotes no address.
\<close>

definition cidr_addresses :: "string \<Rightarrow> int set" where
  "cidr_addresses c =
     (case (toIPv4AddrInteger (hd (js_split CHR ''/'' c)),
            js_parseInt (js_nth (js_split CHR ''/'' c) 1)) of
        (Num a, Num p) \<Rightarrow>
          if 0 \<le> a \<and> a < 2 ^ 32 \<and> 0 \<le> p \<and> p \<le> 32
          then {x. 0 \<le> x \<and> x < 2 ^ 32 \<and> x div 2 ^ nat (32 - p) = a div 2 ^ nat (32 - p)}
          else {}
      | _ \<Rightarrow> {})"


section \<open>Chains of address blocks\<close>

text \<open>
  \<open>consecutive_blocks cs s e\<close>: the CIDR tokens \<open>cs\<close>, in their order, denote adjacent
  intervals of addresses that run from \<open>s\<close> to \<open>e\<close> (for no token, the empty interval).
\<close>

fun consecutive_blocks :: "string list \<Rightarrow> int \<Rightarrow> int \<Rightarrow> bool" where
  "consecutive_blocks [] s e = (s = e + 1)"
| "consecutive_blocks (c # cs) s e =
     (\<exists>h. s \<le> h \<and> cidr_addresses c = {s..h} \<and> consecutive_blocks cs (h + 1) e)"

section \<open>Facts about the primitives\<close>

lemma js_split_nosep: "sep \<notin> set s \<Longrightarrow> js_split sep s = [s]"
  by (induction s) auto

lemma js_split_append:
  "sep \<notin> set xs \<Longrightarrow> js_split sep (xs @ sep # ys) = xs # js_split sep ys"
  by (induction xs) auto

lemma js_split_nonempty: "js_split sep s \<noteq> []"
  by (induction s) (auto split: list.splits)

lemma digit_of_digit_char: "d < 10 \<Longrightarrow> digit_of (digit_char d) = Some d"
  by (simp add: digit_of_def digit_char_def Let_def)

lemma of_char_digit_char: "d < 10 \<Longrightarrow> (of_char (digit_char d) :: nat) = 48 + d"
  by (simp add: digit_char_def)

lemma nat_toString_radix_10:
  "nat_toString_radix 10 n =
     (if n < 10 then [digit_char n] else nat_toString_radix 10 (n div 10) @ [digit_char (n mod 10)])"
  by (subst nat_toString_radix.simps) simp

lemma nat_toString_digits: "c \<in> set (nat_toString n) \<Longrightarrow> \<exists>d<10. c = digit_char d"
  unfolding nat_toString_def
proof (induction n rule: less_induct)
  case (less n)
  show ?case
  proof (cases "n < 10")
    case True
    with less.prems show ?thesis by (subst (asm) nat_toString_radix_10) auto
  next
    case False
    with less.prems have "c \<in> set (nat_toString_radix 10 (n div 10)) \<or> c = digit_char (n mod 10)"
      by (subst (asm) nat_toString_radix_10) auto
    then show ?thesis
    proof
      assume "c \<in> set (nat_toString_radix 10 (n div 10))"
      with less.IH[of "n div 10"] False show ?thesis by simp
    next
      assume "c = digit_char (n mod 10)"
      then show ?thesis by (intro exI[of _ "n mod 10"]) simp
    qed
  qed
qed

lemma nat_toString_nonempty: "nat_toString n \<noteq> []"
  unfolding nat_toString_def by (subst nat_toString_radix_10) simp

lemma nat_toString_decimal: "list_all is_decimal_digit (nat_toString n)"
proof -
  { fix c assume "c \<in> set (nat_toString n)"
    then obtain d where "d < 10" "c = digit_char d" using nat_toString_digits by blast
    then have "is_decimal_digit c"
      by (simp add: is_decimal_digit_def radix_digit_def digit_of_digit_char) }
  then show ?thesis by (simp add: list_all_iff)
qed

lemma digits_value_snoc: "digits_value r (ds @ [c]) = digits_value r ds * r + the (digit_of c)"
  by (simp add: digits_value_def)

lemma digits_value_nat_toString: "digits_value 10 (nat_toString n) = n"
  unfolding nat_toString_def
proof (induction n rule: less_induct)
  case (less n)
  show ?case
  proof (cases "n < 10")
    case True
    then show ?thesis
      by (subst nat_toString_radix_10) (simp add: digits_value_def digit_of_digit_char)
  next
    case False
    then have "digits_value 10 (nat_toString_radix 10 (n div 10)) = n div 10"
      using less.IH[of "n div 10"] by simp
    with False show ?thesis
      by (subst nat_toString_radix_10) (simp add: digits_value_snoc digit_of_digit_char)
  qed
qed

lemma decimal_digit_facts:
  assumes "is_decimal_digit c"
  shows "\<not> js_whitespace c" "c \<noteq> CHR ''-''" "c \<noteq> CHR ''+''" "c \<noteq> CHR ''x''" "c \<noteq> CHR ''X''"
    "c \<noteq> CHR ''.''" "c \<noteq> CHR ''/''" "radix_digit 10 c"
  using assms
  by (auto simp: is_decimal_digit_def radix_digit_def digit_of_def js_whitespace_def Let_def
      split: if_splits)

lemma js_parseInt_radix_decimal:
  assumes "ds \<noteq> []" "list_all is_decimal_digit ds"
  shows "js_parseInt_radix None ds = round_double (int (digits_value 10 ds))"
proof -
  obtain c cs where ds: "ds = c # cs" using assms(1) by (cases ds) auto
  have c: "is_decimal_digit c" using assms(2) ds by simp
  have nohex: "\<not> prefix ''0x'' ds" "\<not> prefix ''0X'' ds"
  proof -
    { fix h assume "prefix [CHR ''0'', h] ds" and h: "\<not> is_decimal_digit h"
      then obtain r where "ds = [CHR ''0'', h] @ r" by (auto simp: prefix_def)
      with assms(2) h have False by simp }
    note k = this
    show "\<not> prefix ''0x'' ds" using k[of "CHR ''x''"] decimal_digit_facts(4)[of "CHR ''x''"] by auto
    show "\<not> prefix ''0X'' ds" using k[of "CHR ''X''"] decimal_digit_facts(5)[of "CHR ''X''"] by auto
  qed
  have tw: "takeWhile (radix_digit 10) ds = ds"
    using assms(2) by (auto simp: takeWhile_eq_all_conv list_all_iff is_decimal_digit_def)
  have dw: "dropWhile js_whitespace ds = ds"
    using ds decimal_digit_facts(1)[OF c] by simp
  have hd: "hd ds \<noteq> CHR ''-''" "hd ds \<noteq> CHR ''+''"
    using decimal_digit_facts(2,3)[OF c] ds by simp_all
  show ?thesis
    unfolding js_parseInt_radix_def Let_def dw
    by (simp add: nohex tw assms(1) hd)
qed

lemma round_double_small:
  assumes "\<bar>v\<bar> < 2 ^ 53"
  shows "round_double v = Num v"
proof -
  have "nat \<bar>v\<bar> < 2 ^ 53" using assms by (simp add: nat_less_iff)
  then show ?thesis unfolding round_double_def Let_def by (simp only: if_True)
qed

lemma js_parseInt_nat_toString:
  "n < 2 ^ 53 \<Longrightarrow> js_parseInt (Some (nat_toString n)) = Num (int n)"
  by (simp add: js_parseInt_def js_parseInt_radix_decimal nat_toString_nonempty
      nat_toString_decimal digits_value_nat_toString round_double_small)

lemma nat_toString_no_sep:
  "CHR ''.'' \<notin> set (nat_toString n)" "CHR ''/'' \<notin> set (nat_toString n)"
  using nat_toString_decimal[of n] decimal_digit_facts(6,7)
  by (auto simp: list_all_iff)



lemma js_split_octets_toString:
  "js_split CHR ''.'' (octets_toString [a, b, c, d]) =
     [nat_toString a, nat_toString b, nat_toString c, nat_toString d]"
  by (simp add: octets_toString_def js_split_append js_split_nosep nat_toString_no_sep)

lemma octet_small: "a < 256 \<Longrightarrow> a < (2::nat) ^ 53"
  by (rule less_trans[of a 256]) simp_all

lemma ipv4_octets_octets_toString:
  assumes "a < 256" "b < 256" "c < 256" "d < 256"
  shows "ipv4_octets (octets_toString [a, b, c, d]) = [a, b, c, d]"
  using assms
  by (simp add: ipv4_octets_def js_split_octets_toString js_nth_def js_parseInt_nat_toString
      octet_small toUint8_def)

lemma parsedOctets_octets_toString:
  assumes "a < 256" "b < 256" "c < 256" "d < 256"
  shows "parsedOctets (octets_toString [a, b, c, d]) = [Num (int a), Num (int b), Num (int c), Num (int d)]"
  using assms
  by (simp add: parsedOctets_def js_split_octets_toString js_nth_def js_parseInt_nat_toString
      octet_small)

lemma js_add_Num: "\<bar>a + b\<bar> < 2 ^ 53 \<Longrightarrow> js_add (Num a) (Num b) = Num (a + b)"
  by (simp add: round_double_small)

lemma js_sub_Num: "\<bar>a - b\<bar> < 2 ^ 53 \<Longrightarrow> js_sub (Num a) (Num b) = Num (a - b)"
  by (simp add: js_sub_def round_double_small)

lemma js_mul_Num: "\<bar>a * b\<bar> < 2 ^ 53 \<Longrightarrow> js_mul (Num a) (Num b) = Num (a * b)"
  by (simp add: round_double_small)

lemma toIPv4AddrInteger_octets_toString:
  assumes "a < 256" "b < 256" "c < 256" "d < 256"
  shows "toIPv4AddrInteger (octets_toString [a, b, c, d]) =
     Num (int a * 16777216 + int b * 65536 + int c * 256 + int d)"
proof -
  have b: "int a < 256" "int b < 256" "int c < 256" "int d < 256" using assms by simp_all
  have 1: "js_mul (Num (int a)) (Num 16777216) = Num (int a * 16777216)"
    "js_mul (Num (int b)) (Num 65536) = Num (int b * 65536)"
    "js_mul (Num (int c)) (Num 256) = Num (int c * 256)"
    using b by (intro js_mul_Num, simp)+
  have 2: "js_add (Num (int a * 16777216)) (Num (int b * 65536))
      = Num (int a * 16777216 + int b * 65536)"
    using b by (intro js_add_Num) simp
  have 3: "js_add (Num (int a * 16777216 + int b * 65536)) (Num (int c * 256))
      = Num (int a * 16777216 + int b * 65536 + int c * 256)"
    using b by (intro js_add_Num) simp
  have 4: "js_add (Num (int a * 16777216 + int b * 65536 + int c * 256)) (Num (int d))
      = Num (int a * 16777216 + int b * 65536 + int c * 256 + int d)"
    using b by (intro js_add_Num) simp
  let ?L = "[nat_toString a, nat_toString b, nat_toString c, nat_toString d]"
  have p: "js_parseInt (js_nth ?L 0) = Num (int a)" "js_parseInt (js_nth ?L 1) = Num (int b)"
    "js_parseInt (js_nth ?L 2) = Num (int c)" "js_parseInt (js_nth ?L 3) = Num (int d)"
    using assms by (simp_all add: js_nth_def js_parseInt_nat_toString octet_small)
  show ?thesis
    unfolding toIPv4AddrInteger_def Let_def js_split_octets_toString p 1 2 3 4 by (rule refl)
qed

lemma octets_toString_no_slash: "CHR ''/'' \<notin> set (octets_toString [a, b, c, d])"
  by (simp add: octets_toString_def nat_toString_no_sep)

lemma toUint8_lt: "toUint8 x < 256"
  by (cases x) (simp_all add: toUint8_def)

lemma ipv4_octets_shape:
  "\<exists>a b c d. ipv4_octets s = [a, b, c, d] \<and> a < 256 \<and> b < 256 \<and> c < 256 \<and> d < 256"
  by (simp add: ipv4_octets_def toUint8_lt)

lemma and_255: "(x::nat) AND 255 = x mod 256"
proof -
  have "x AND mask 8 = x mod 2 ^ 8"
    by (simp only: take_bit_eq_mask[symmetric] take_bit_eq_mod)
  moreover have "(mask 8 :: nat) = 255" by (simp add: mask_eq_exp_minus_1)
  ultimately show ?thesis by simp
qed

lemma toIPv4AddrInteger_toIPv4AddrString:
  assumes "0 \<le> n" "n < 4294967296"
  shows "toIPv4AddrInteger (toIPv4AddrString (Num n)) = Num n"
proof -
  define u where "u = nat n"
  have u: "u < 4294967296" "n = int u" using assms by (simp_all add: u_def)
  have m: "toUint32 (Num n) = u" using assms by (simp add: u_def toUint32_def)
  define q1 where "q1 = u div 256"
  define q2 where "q2 = q1 div 256"
  define q3 where "q3 = q2 div 256"
  have d2: "drop_bit 16 u = q2" "drop_bit 8 u = q1" "drop_bit 24 u = q3"
    by (simp_all add: drop_bit_eq_div q1_def q2_def q3_def div_mult2_eq[symmetric])
  have q3: "q3 mod 256 = q3"
    using u(1) by (simp add: q1_def q2_def q3_def div_mult2_eq[symmetric])
  have e1: "u = q1 * 256 + u mod 256" by (simp add: q1_def)
  have e2: "q1 = q2 * 256 + q1 mod 256" by (simp add: q2_def)
  have e3: "q2 = q3 * 256 + q2 mod 256" by (simp add: q3_def)
  have split: "q3 mod 256 * 16777216 + q2 mod 256 * 65536 + q1 mod 256 * 256 + u mod 256 = u"
    unfolding q3 using e1 e2 e3 by linarith
  have "toIPv4AddrInteger (toIPv4AddrString (Num n)) =
      Num (int (q3 mod 256) * 16777216 + int (q2 mod 256) * 65536
        + int (q1 mod 256) * 256 + int (u mod 256))"
    unfolding toIPv4AddrString_def Let_def m and_255 d2
    by (intro toIPv4AddrInteger_octets_toString) simp_all
  also have "\<dots> = Num (int u)"
    using arg_cong[OF split, of int] by (simp del: of_nat_add of_nat_mult add: of_nat_add of_nat_mult)
  finally show ?thesis using u(2) by simp
qed

lemma toIPv4AddrString_no_slash: "CHR ''/'' \<notin> set (toIPv4AddrString x)"
  by (simp add: toIPv4AddrString_def Let_def octets_toString_no_slash)

section \<open>Protocol classes: the bit of a leading protocol token\<close>

lemmas protocol_name_defs =
  isIpProtocol_def isIcmpProtocol_def isIcmp6Protocol_def
  isTcpProtocol_def isUdpProtocol_def isSctpProtocol_def

lemmas protocol_bit_defs =
  PROTOCOL_TYPE_BIT_NONE_def PROTOCOL_TYPE_BIT_IP_def PROTOCOL_TYPE_BIT_ICMP_ICMP6_def
  PROTOCOL_TYPE_BIT_TCP_UDP_SCTP_def PROTOCOL_TYPE_BIT_UNSUPPORTED_def

lemma getProtocolTypeBit_cases:
  "getProtocolTypeBit t =
     (if t = ''1'' \<or> t = ''58'' then PROTOCOL_TYPE_BIT_ICMP_ICMP6
      else if t = ''6'' \<or> t = ''17'' \<or> t = ''132'' then PROTOCOL_TYPE_BIT_TCP_UDP_SCTP
      else if t = ''ip'' \<or> js_isIntegerString t then PROTOCOL_TYPE_BIT_IP
      else if t = ''undefined'' then PROTOCOL_TYPE_BIT_NONE
      else PROTOCOL_TYPE_BIT_UNSUPPORTED)"
  by (simp add: getProtocolTypeBit_def protocol_name_defs PROTOCOL_TYPE_BIT_NONE_def)

lemma dropWhile_hd_id: "xs \<noteq> [] \<Longrightarrow> \<not> P (hd xs) \<Longrightarrow> dropWhile P xs = xs"
  by (cases xs) simp_all

lemma js_trim_id:
  assumes "s \<noteq> []" "\<not> js_whitespace (hd s)" "\<not> js_whitespace (last s)"
  shows "js_trim s = s"
proof -
  have 1: "dropWhile js_whitespace s = s" using assms(1,2) by (rule dropWhile_hd_id)
  have "rev s \<noteq> []" "\<not> js_whitespace (hd (rev s))" using assms(1,3) by (simp_all add: hd_rev)
  then have 2: "dropWhile js_whitespace (rev s) = rev s" by (rule dropWhile_hd_id)
  show ?thesis by (simp add: js_trim_def 1 2)
qed

lemma js_trim_hd:
  assumes "s \<noteq> []" "\<not> js_whitespace (hd s)"
  shows "js_trim s \<noteq> [] \<and> hd (js_trim s) = hd s"
proof -
  obtain c cs where s: "s = c # cs" using assms(1) by (cases s) auto
  have c: "\<not> js_whitespace c" using assms(2) s by simp
  have 1: "dropWhile js_whitespace (c # cs) = c # cs" using c by simp
  have 2: "dropWhile js_whitespace (rev cs @ [c]) = dropWhile js_whitespace (rev cs) @ [c]"
    using c by (simp add: dropWhile_append dropWhile_eq_Nil_conv)
  have "js_trim s = c # rev (dropWhile js_whitespace (rev cs))"
    unfolding js_trim_def s 1 by (simp add: 2)
  then show ?thesis by (simp add: s)
qed

lemma set_js_trim: "c \<in> set s \<Longrightarrow> js_whitespace c \<or> c \<in> set (js_trim s)"
proof -
  assume c: "c \<in> set s"
  have k: "\<And>xs. c \<in> set xs \<Longrightarrow> js_whitespace c \<or> c \<in> set (dropWhile js_whitespace xs)"
  proof -
    fix xs assume "c \<in> set xs"
    then have "c \<in> set (takeWhile js_whitespace xs) \<or> c \<in> set (dropWhile js_whitespace xs)"
      by (metis Un_iff set_append takeWhile_dropWhile_id)
    then show "js_whitespace c \<or> c \<in> set (dropWhile js_whitespace xs)"
      by (auto dest: set_takeWhileD)
  qed
  from k[OF c] show ?thesis
  proof
    assume "c \<in> set (dropWhile js_whitespace s)"
    then have "c \<in> set (rev (dropWhile js_whitespace s))" by simp
    from k[OF this] show ?thesis by (simp add: js_trim_def)
  qed simp
qed

lemma not_prefix_0c:
  assumes "list_all is_decimal_digit ds" "\<not> is_decimal_digit h"
  shows "\<not> prefix [CHR ''0'', h] ds"
proof
  assume "prefix [CHR ''0'', h] ds"
  then obtain r where "ds = [CHR ''0'', h] @ r" by (auto simp: prefix_def)
  with assms show False by simp
qed

lemma nondigit_letters:
  "\<not> is_decimal_digit CHR ''x''" "\<not> is_decimal_digit CHR ''X''"
  "\<not> is_decimal_digit CHR ''o''" "\<not> is_decimal_digit CHR ''O''"
  "\<not> is_decimal_digit CHR ''b''" "\<not> is_decimal_digit CHR ''B''"
  "\<not> is_decimal_digit CHR ''I''" "\<not> is_decimal_digit CHR ''e''" "\<not> is_decimal_digit CHR ''E''"
  "\<not> is_decimal_digit CHR ''.''" "\<not> is_decimal_digit CHR ''+''" "\<not> is_decimal_digit CHR ''-''"
  by (simp_all add: is_decimal_digit_def radix_digit_def digit_of_def)

lemma is_decimal_digit_0: "is_decimal_digit CHR ''0''"
  by (simp add: is_decimal_digit_def radix_digit_def digit_of_def)

lemma js_isIntegerString_digits:
  assumes "ds \<noteq> []" "list_all is_decimal_digit ds"
  shows "js_isIntegerString ds = (digits_value 10 ds < double_overflow)"
proof -
  have h: "is_decimal_digit (hd ds)" "is_decimal_digit (last ds)"
    using assms by (auto simp: list_all_iff)
  have t: "js_trim ds = ds"
    using assms(1) h decimal_digit_facts(1) by (intro js_trim_id) auto
  have np: "\<not> prefix ''0x'' ds" "\<not> prefix ''0X'' ds" "\<not> prefix ''0o'' ds" "\<not> prefix ''0O'' ds"
    "\<not> prefix ''0b'' ds" "\<not> prefix ''0B'' ds"
    using not_prefix_0c[OF assms(2)] nondigit_letters by blast+
  have sg: "hd ds \<noteq> CHR ''-''" "hd ds \<noteq> CHR ''+''"
    using h(1) nondigit_letters by auto
  have inf: "ds \<noteq> ''Infinity''"
    using h(1) nondigit_letters(7) by auto
  have tw: "takeWhile is_decimal_digit ds = ds" "dropWhile is_decimal_digit ds = []"
    using assms(2) by (auto simp: takeWhile_eq_all_conv list_all_iff)
  have u: "unsigned_decimal_is_integer ds = Some (digits_value 10 ds < double_overflow)"
  proof -
    have "0 < double_overflow" by (simp add: double_overflow_def)
    then show ?thesis
      unfolding unsigned_decimal_is_integer_def Let_def tw
      by (simp add: assms(1) exponent_part_def decimal_is_integer_def)
  qed
  show ?thesis
    unfolding js_isIntegerString_def Let_def t
    by (simp add: assms(1) np sg inf u)
qed

lemma js_isIntegerString_first:
  assumes "t \<noteq> []" "\<not> js_whitespace (hd t)" "\<not> is_decimal_digit (hd t)"
    "hd t \<noteq> CHR ''+''" "hd t \<noteq> CHR ''-''" "hd t \<noteq> CHR ''.''"
  shows "\<not> js_isIntegerString t"
proof -
  define u where "u = js_trim t"
  have u: "u \<noteq> []" "hd u = hd t" using js_trim_hd[OF assms(1,2)] by (simp_all add: u_def)
  have h0: "hd u \<noteq> CHR ''0''" using assms(3) u(2) is_decimal_digit_0 by auto
  have np: "\<not> prefix (CHR ''0'' # r) u" for r
    using u(1) h0 by (cases u) auto
  have tw: "takeWhile is_decimal_digit u = []" "dropWhile is_decimal_digit u = u"
    using u assms(3) by (cases u; simp)+
  have "unsigned_decimal_is_integer u = None"
    unfolding unsigned_decimal_is_integer_def Let_def tw
    using u assms(6) by simp
  then show ?thesis
    unfolding js_isIntegerString_def Let_def u_def[symmetric]
    using u assms(4,5) by (simp add: np)
qed


lemma radix_digit_mono: "radix_digit r c \<Longrightarrow> r \<le> r' \<Longrightarrow> radix_digit r' c"
  by (auto simp: radix_digit_def split: option.splits)

lemma decimal_radix16: "is_decimal_digit c \<Longrightarrow> radix_digit 16 c"
  unfolding is_decimal_digit_def by (erule radix_digit_mono) simp

lemma radix16_letters:
  "radix_digit 16 CHR ''0''" "radix_digit 16 CHR ''e''" "radix_digit 16 CHR ''E''"
  "radix_digit 16 CHR ''b''" "radix_digit 16 CHR ''B''"
  by (simp_all add: radix_digit_def digit_of_def)

lemma exponent_part_chars:
  assumes "exponent_part r = Some k" "c \<in> set r"
  shows "radix_digit 16 c \<or> c = CHR ''+'' \<or> c = CHR ''-''"
proof -
  from assms(2) obtain h t where r: "r = h # t" by (cases r) auto
  define ds where "ds = (if t \<noteq> [] \<and> (hd t = CHR ''-'' \<or> hd t = CHR ''+'') then tl t else t)"
  from assms(1) have h: "h = CHR ''e'' \<or> h = CHR ''E''"
    by (auto simp: exponent_part_def r split: if_splits)
  from assms(1) h have ds: "list_all is_decimal_digit ds"
    by (auto simp: exponent_part_def r Let_def ds_def split: if_splits)
  have t: "c \<in> set t \<Longrightarrow> c \<in> set ds \<or> c = CHR ''+'' \<or> c = CHR ''-''"
    by (cases t) (auto simp: ds_def split: if_splits)
  from assms(2) r have "c = h \<or> c \<in> set t" by auto
  then show ?thesis
  proof
    assume "c = h" with h show ?thesis using radix16_letters by auto
  next
    assume "c \<in> set t"
    with t ds show ?thesis by (auto simp: list_all_iff dest: decimal_radix16)
  qed
qed

lemma unsigned_decimal_chars:
  assumes "unsigned_decimal_is_integer v = Some b" "c \<in> set v"
  shows "radix_digit 16 c \<or> c = CHR ''+'' \<or> c = CHR ''-'' \<or> c = CHR ''.''"
proof -
  define r1 where "r1 = dropWhile is_decimal_digit v"
  define dot where "dot = (r1 \<noteq> [] \<and> hd r1 = CHR ''.'')"
  define r2 where "r2 = (if dot then dropWhile is_decimal_digit (tl r1) else r1)"
  from assms(1) obtain k where k: "exponent_part r2 = Some k"
    by (auto simp: unsigned_decimal_is_integer_def Let_def r1_def dot_def r2_def
        split: if_splits option.splits)
  have tk: "\<And>xs. c \<in> set (takeWhile is_decimal_digit xs) \<Longrightarrow> radix_digit 16 c"
    by (auto dest: set_takeWhileD decimal_radix16)
  have sp: "\<And>xs. c \<in> set xs \<Longrightarrow>
      c \<in> set (takeWhile is_decimal_digit xs) \<or> c \<in> set (dropWhile is_decimal_digit xs)"
    by (metis Un_iff set_append takeWhile_dropWhile_id)
  from sp[OF assms(2)] show ?thesis
  proof
    assume "c \<in> set (takeWhile is_decimal_digit v)" then show ?thesis using tk by simp
  next
    assume c: "c \<in> set (dropWhile is_decimal_digit v)"
    show ?thesis
    proof (cases dot)
      case False
      then have "r2 = r1" by (simp add: r2_def)
      with c k show ?thesis using exponent_part_chars[of r2 k c] by (auto simp: r1_def)
    next
      case True
      then obtain t where r1: "r1 = CHR ''.'' # t" by (cases r1) (auto simp: dot_def)
      with True have r2: "r2 = dropWhile is_decimal_digit t" by (simp add: r2_def)
      from c r1 have "c = CHR ''.'' \<or> c \<in> set t" by (auto simp: r1_def)
      then show ?thesis
      proof
        assume "c \<in> set t"
        from sp[OF this] show ?thesis
          using tk exponent_part_chars[of r2 k c] k r2 by auto
      qed simp
    qed
  qed
qed

lemma radix_literal_chars:
  assumes "radix_literal_is_integer r ds = Some b" "r \<le> 16" "c \<in> set ds"
  shows "radix_digit 16 c"
proof -
  from assms(1) have "list_all (radix_digit r) ds"
    by (auto simp: radix_literal_is_integer_def split: if_splits)
  with assms(3) have "radix_digit r c" by (auto simp: list_all_iff)
  then show ?thesis using assms(2) by (rule radix_digit_mono)
qed

lemma prefix2_set:
  assumes "prefix [a, b] u" "c \<in> set u"
  shows "c = a \<or> c = b \<or> c \<in> set (drop 2 u)"
proof -
  from assms(1) obtain r where "u = [a, b] @ r" by (auto simp: prefix_def)
  with assms(2) show ?thesis by auto
qed

lemma js_isIntegerString_chars:
  assumes "js_isIntegerString t" "c \<in> set t"
  shows "js_whitespace c \<or> radix_digit 16 c \<or> c \<in> set ''xXoO+-.''"
proof (cases "js_whitespace c")
  case False
  define u where "u = js_trim t"
  have c: "c \<in> set u" using set_js_trim[OF assms(2)] False by (simp add: u_def)
  then have ne: "u \<noteq> []" by auto
  note I = assms(1)[unfolded js_isIntegerString_def Let_def, folded u_def]
  consider (hex) "prefix ''0x'' u \<or> prefix ''0X'' u"
    | (oct) "\<not> (prefix ''0x'' u \<or> prefix ''0X'' u)" "prefix ''0o'' u \<or> prefix ''0O'' u"
    | (bin) "\<not> (prefix ''0x'' u \<or> prefix ''0X'' u)" "\<not> (prefix ''0o'' u \<or> prefix ''0O'' u)"
        "prefix ''0b'' u \<or> prefix ''0B'' u"
    | (dec) "\<not> (prefix ''0x'' u \<or> prefix ''0X'' u)" "\<not> (prefix ''0o'' u \<or> prefix ''0O'' u)"
        "\<not> (prefix ''0b'' u \<or> prefix ''0B'' u)"
    by blast
  then show ?thesis
  proof cases
    case hex
    with I ne obtain b where "radix_literal_is_integer 16 (drop 2 u) = Some b"
      by (auto split: option.splits)
    then have "c \<in> set (drop 2 u) \<Longrightarrow> radix_digit 16 c"
      using radix_literal_chars[of 16 "drop 2 u" b c] by simp
    moreover from hex c have "c = CHR ''0'' \<or> c = CHR ''x'' \<or> c = CHR ''X'' \<or> c \<in> set (drop 2 u)"
      using prefix2_set[of "CHR ''0''" _ u c] by blast
    ultimately show ?thesis using radix16_letters by auto
  next
    case oct
    with I ne obtain b where "radix_literal_is_integer 8 (drop 2 u) = Some b"
      by (auto split: option.splits)
    then have "c \<in> set (drop 2 u) \<Longrightarrow> radix_digit 16 c"
      using radix_literal_chars[of 8 "drop 2 u" b c] by simp
    moreover from oct c have "c = CHR ''0'' \<or> c = CHR ''o'' \<or> c = CHR ''O'' \<or> c \<in> set (drop 2 u)"
      using prefix2_set[of "CHR ''0''" _ u c] by blast
    ultimately show ?thesis using radix16_letters by auto
  next
    case bin
    with I ne obtain b where "radix_literal_is_integer 2 (drop 2 u) = Some b"
      by (auto split: option.splits)
    then have "c \<in> set (drop 2 u) \<Longrightarrow> radix_digit 16 c"
      using radix_literal_chars[of 2 "drop 2 u" b c] by simp
    moreover from bin c have "c = CHR ''0'' \<or> c = CHR ''b'' \<or> c = CHR ''B'' \<or> c \<in> set (drop 2 u)"
      using prefix2_set[of "CHR ''0''" _ u c] by blast
    ultimately show ?thesis using radix16_letters by auto
  next
    case dec
    define v where "v = (if hd u = CHR ''-'' \<or> hd u = CHR ''+'' then tl u else u)"
    from I ne dec obtain b where "unsigned_decimal_is_integer v = Some b"
      by (auto simp: v_def[symmetric] Let_def split: option.splits if_splits)
    then have "c \<in> set v \<Longrightarrow> radix_digit 16 c \<or> c = CHR ''+'' \<or> c = CHR ''-'' \<or> c = CHR ''.''"
      using unsigned_decimal_chars by blast
    moreover from c ne have "c = CHR ''+'' \<or> c = CHR ''-'' \<or> c \<in> set v"
      by (cases u) (auto simp: v_def split: if_splits)
    ultimately show ?thesis by auto
  qed
qed simp

lemma digits_value_nines: "digits_value 10 (replicate n CHR ''9'') + 1 = 10 ^ n"
proof (induction n)
  case 0 show ?case by (simp add: digits_value_def)
next
  case (Suc n)
  have "replicate (Suc n) CHR ''9'' = replicate n CHR ''9'' @ [CHR ''9'']"
    by (simp add: replicate_append_same)
  then have "digits_value 10 (replicate (Suc n) CHR ''9'') = digits_value 10 (replicate n CHR ''9'') * 10 + 9"
    by (simp only: digits_value_snoc) (simp add: digit_of_def)
  with Suc show ?case by simp
qed


lemma digits_value_bound:
  "list_all is_decimal_digit ds \<Longrightarrow> digits_value 10 ds < 10 ^ length ds"
proof (induction ds rule: rev_induct)
  case Nil show ?case by (simp add: digits_value_def)
next
  case (snoc c ds)
  then have "is_decimal_digit c" and IH: "digits_value 10 ds < 10 ^ length ds" by simp_all
  then obtain d where d: "digit_of c = Some d" "d < 10"
    by (auto simp: is_decimal_digit_def radix_digit_def split: option.splits)
  from IH have "digits_value 10 ds * 10 + 10 \<le> 10 ^ length ds * 10" by simp
  with d show ?case by (simp add: digits_value_snoc)
qed

lemma five_digit_tokens:
  "list_all is_decimal_digit ''1''" "list_all is_decimal_digit ''58''"
  "list_all is_decimal_digit ''6''" "list_all is_decimal_digit ''17''"
  "list_all is_decimal_digit ''132''"
  by (simp_all add: is_decimal_digit_def radix_digit_def digit_of_def)

lemma getProtocolTypeBitsOfArray_snoc:
  "getProtocolTypeBitsOfArray (vs @ [v]) =
     getProtocolTypeBitsOfArray vs OR getProtocolTypeBit (leadingProtocolToken v)"
  by (simp add: getProtocolTypeBitsOfArray_def)

lemma digits_308:
  assumes "list_all is_decimal_digit ds" "length ds \<le> 308"
  shows "digits_value 10 ds < 2 ^ 1024 - 2 ^ 970"
proof -
  have "digits_value 10 ds < 10 ^ length ds" using assms(1) by (rule digits_value_bound)
  also have "(10::nat) ^ length ds \<le> 10 ^ 308" using assms(2) by (intro power_increasing) simp_all
  also have "(10::nat) ^ 308 < 2 ^ 1024 - 2 ^ 970" by simp
  finally show ?thesis .
qed



lemmas digit_eval = unsigned_decimal_is_integer_def exponent_part_def decimal_is_integer_def
  double_overflow_def is_decimal_digit_def radix_digit_def digit_of_def digits_value_def Let_def

lemma trim_evals:
  "js_trim ''6.0'' = ''6.0''" "js_trim ''1e2'' = ''1e2''" "js_trim ''0x1F'' = ''0x1F''"
  "js_trim ''+6'' = ''+6''" "js_trim '' 6 '' = ''6''" "js_trim [] = []"
  by (simp_all add: js_trim_def js_whitespace_def)

lemma unsigned_evals:
  "unsigned_decimal_is_integer ''6'' = Some True"
  "unsigned_decimal_is_integer ''1e2'' = Some True"
  by (simp_all add: digit_eval)

lemma unsigned_evals2:
  "unsigned_decimal_is_integer ''6.0'' = Some True"
  by (simp add: digit_eval rounds_to_int_def compute_floorlog)

lemma radix_evals:
  "radix_literal_is_integer 16 ''1F'' = Some True"
  by (simp add: radix_literal_is_integer_def radix_digit_def digit_of_def digits_value_def
      double_overflow_def)

lemma integer_evals:
  "js_isIntegerString ''6.0''" "js_isIntegerString ''1e2''" "js_isIntegerString ''0x1F''"
  "js_isIntegerString ''+6''" "js_isIntegerString '' 6 ''" "js_isIntegerString []"
  unfolding js_isIntegerString_def Let_def trim_evals
  by (simp_all add: unsigned_evals unsigned_evals2 radix_evals)

lemma digits_radix16: "list_all is_decimal_digit t \<Longrightarrow> c \<in> set t \<Longrightarrow> radix_digit 16 c"
  by (auto simp: list_all_iff dest: decimal_radix16)

lemma nines_309:
  "leadingProtocolToken (replicate 309 CHR ''9'' @ '';-'') = replicate 309 CHR ''9''"
  "\<not> js_isIntegerString (replicate 309 CHR ''9'')"
  "replicate 309 CHR ''9'' \<notin> {''ip'', ''undefined'', ''1'', ''58'', ''6'', ''17'', ''132''}"
proof -
  let ?n = "replicate 309 CHR ''9''"
  have dn: "list_all is_decimal_digit ?n"
    by (simp add: list_all_iff is_decimal_digit_def radix_digit_def digit_of_def)
  have sep: "CHR '';'' \<notin> set ?n" "CHR ''/'' \<notin> set ?n" by simp_all
  have "js_split CHR '';'' (?n @ '';-'') = ?n # js_split CHR '';'' ''-''"
    by (rule js_split_append[OF sep(1)])
  then show "leadingProtocolToken (?n @ '';-'') = ?n"
    unfolding leadingProtocolToken_def by (simp only: list.sel js_split_nosep[OF sep(2)])
  have "digits_value 10 ?n + 1 = 10 ^ 309" by (rule digits_value_nines)
  then have "digits_value 10 ?n = 10 ^ 309 - 1" by simp
  moreover have "(2::nat) ^ 1024 - 2 ^ 970 \<le> 10 ^ 309 - 1" by simp
  ultimately show "\<not> js_isIntegerString ?n"
    using js_isIntegerString_digits[OF _ dn] by (simp add: double_overflow_def)
  have ne: "?n \<noteq> s" if "length s < 309" for s
    using that by (metis length_replicate less_irrefl)
  have "?n \<noteq> ''ip''" "?n \<noteq> ''undefined''" "?n \<noteq> ''1''" "?n \<noteq> ''58''"
    "?n \<noteq> ''6''" "?n \<noteq> ''17''" "?n \<noteq> ''132''"
    by (intro ne, simp)+
  then show "?n \<notin> {''ip'', ''undefined'', ''1'', ''58'', ''6'', ''17'', ''132''}"
    by (simp only: insert_iff empty_iff simp_thms)
qed

lemma js_isIntegerString_undefined: "\<not> js_isIntegerString ''undefined''"
  by (rule js_isIntegerString_first)
    (simp_all add: js_whitespace_def is_decimal_digit_def radix_digit_def digit_of_def)

text \<open>
  C4, as stated, fails at three kinds of leading token. The service value \<open>undefined;-\<close>
  has the leading token \<open>undefined\<close>, to which the code gives no class bit at all, not
  the UNSUPPORTED bit. A string of 309 nines is an integer string, but its value converts
  to \<open>Infinity\<close>, and the code gives it the UNSUPPORTED bit, not the IP bit. The tokens
  \<open>6.0\<close>, \<open>1e2\<close>, \<open>0x1F\<close>, \<open>+6\<close>, \<open>6\<close> between blanks and the empty token are
  no strings of digits, but convert to an integer, and the code gives them the IP bit, not
  the UNSUPPORTED bit.
\<close>

theorem C4_counterexample:
  "getProtocolTypeBit (leadingProtocolToken ''undefined;-'') = PROTOCOL_TYPE_BIT_NONE
   \<and> PROTOCOL_TYPE_BIT_NONE \<noteq> PROTOCOL_TYPE_BIT_UNSUPPORTED
   \<and> getProtocolTypeBit (leadingProtocolToken (replicate 309 CHR ''9'' @ '';-''))
       = PROTOCOL_TYPE_BIT_UNSUPPORTED
   \<and> getProtocolTypeBit (leadingProtocolToken ''6.0;-'') = PROTOCOL_TYPE_BIT_IP
   \<and> getProtocolTypeBit (leadingProtocolToken ''1e2;-'') = PROTOCOL_TYPE_BIT_IP
   \<and> getProtocolTypeBit (leadingProtocolToken ''0x1F;-'') = PROTOCOL_TYPE_BIT_IP
   \<and> getProtocolTypeBit (leadingProtocolToken ''+6;-'') = PROTOCOL_TYPE_BIT_IP
   \<and> getProtocolTypeBit (leadingProtocolToken '' 6 ;-'') = PROTOCOL_TYPE_BIT_IP
   \<and> getProtocolTypeBit (leadingProtocolToken '';-'') = PROTOCOL_TYPE_BIT_IP
   \<and> PROTOCOL_TYPE_BIT_IP \<noteq> PROTOCOL_TYPE_BIT_UNSUPPORTED"
proof -
  have n: "getProtocolTypeBit (leadingProtocolToken (replicate 309 CHR ''9'' @ '';-''))
       = PROTOCOL_TYPE_BIT_UNSUPPORTED"
    unfolding nines_309(1) getProtocolTypeBit_cases using nines_309(2,3)
    by (simp only: insert_iff empty_iff simp_thms de_Morgan_disj if_False)
  have tok: "leadingProtocolToken ''undefined;-'' = ''undefined''"
    "leadingProtocolToken ''6.0;-'' = ''6.0''" "leadingProtocolToken ''1e2;-'' = ''1e2''"
    "leadingProtocolToken ''0x1F;-'' = ''0x1F''" "leadingProtocolToken ''+6;-'' = ''+6''"
    "leadingProtocolToken '' 6 ;-'' = '' 6 ''" "leadingProtocolToken '';-'' = []"
    by (simp_all add: leadingProtocolToken_def)
  show ?thesis
    unfolding n tok
    by (simp add: getProtocolTypeBit_cases js_isIntegerString_undefined integer_evals
        protocol_bit_defs)
qed

text \<open>
  C4 (amended): the bit that \<open>getProtocolTypeBitsOfArray\<close> adds for a service value is the
  bit of its leading protocol token \<open>t\<close>, and that bit is: ICMP for \<open>1\<close> and \<open>58\<close>;
  TCP/UDP/SCTP for \<open>6\<close>, \<open>17\<close> and \<open>132\<close>; IP for \<open>ip\<close>; no bit for \<open>undefined\<close>; for
  every other non-empty string of decimal digits IP when its value is below
  \<open>2^1024 - 2^970\<close>, so whenever it has at most 308 digits, and UNSUPPORTED from that value
  on; UNSUPPORTED for every token other than \<open>ip\<close> and \<open>undefined\<close> that contains a
  character which is neither white space, nor a hexadecimal digit, nor one of
  \<open>x X o O + - .\<close>, or that starts with a character which is neither white space, nor a
  decimal digit, nor one of \<open>+ - .\<close>; and for every remaining token that is not empty
  after trimming, IP when \<open>Number.isInteger(+t)\<close> holds and UNSUPPORTED otherwise.
\<close>

theorem C4_leading_token_bit:
  "(t = ''1'' \<or> t = ''58'' \<longrightarrow> getProtocolTypeBit t = PROTOCOL_TYPE_BIT_ICMP_ICMP6)
   \<and> (t = ''6'' \<or> t = ''17'' \<or> t = ''132'' \<longrightarrow> getProtocolTypeBit t = PROTOCOL_TYPE_BIT_TCP_UDP_SCTP)
   \<and> (t = ''ip'' \<longrightarrow> getProtocolTypeBit t = PROTOCOL_TYPE_BIT_IP)
   \<and> (t = ''undefined'' \<longrightarrow> getProtocolTypeBit t = PROTOCOL_TYPE_BIT_NONE)
   \<and> (t \<noteq> [] \<and> list_all is_decimal_digit t \<and> t \<notin> {''1'', ''58'', ''6'', ''17'', ''132''} \<longrightarrow>
        getProtocolTypeBit t =
          (if digits_value 10 t < 2 ^ 1024 - 2 ^ 970 then PROTOCOL_TYPE_BIT_IP
           else PROTOCOL_TYPE_BIT_UNSUPPORTED))
   \<and> (t \<noteq> [] \<and> list_all is_decimal_digit t \<and> length t \<le> 308
        \<and> t \<notin> {''1'', ''58'', ''6'', ''17'', ''132''} \<longrightarrow>
        getProtocolTypeBit t = PROTOCOL_TYPE_BIT_IP)
   \<and> (t \<noteq> ''ip'' \<and> t \<noteq> ''undefined''
        \<and> (\<exists>c \<in> set t. \<not> js_whitespace c \<and> \<not> radix_digit 16 c \<and> c \<notin> set ''xXoO+-.'') \<longrightarrow>
        getProtocolTypeBit t = PROTOCOL_TYPE_BIT_UNSUPPORTED)
   \<and> (t \<noteq> ''ip'' \<and> t \<noteq> ''undefined'' \<and> t \<noteq> []
        \<and> \<not> js_whitespace (hd t) \<and> \<not> is_decimal_digit (hd t) \<and> hd t \<notin> set ''+-.'' \<longrightarrow>
        getProtocolTypeBit t = PROTOCOL_TYPE_BIT_UNSUPPORTED)
   \<and> (t \<notin> {''1'', ''58'', ''6'', ''17'', ''132'', ''ip'', ''undefined''} \<and> js_trim t \<noteq> [] \<longrightarrow>
        getProtocolTypeBit t =
          (if js_isIntegerString t then PROTOCOL_TYPE_BIT_IP else PROTOCOL_TYPE_BIT_UNSUPPORTED))
   \<and> getProtocolTypeBitsOfArray (vs @ [v]) =
        getProtocolTypeBitsOfArray vs OR getProtocolTypeBit (leadingProtocolToken v)"
proof -
  have A: "t \<noteq> [] \<and> list_all is_decimal_digit t \<and> t \<notin> {''1'', ''58'', ''6'', ''17'', ''132''} \<longrightarrow>
        getProtocolTypeBit t =
          (if digits_value 10 t < 2 ^ 1024 - 2 ^ 970 then PROTOCOL_TYPE_BIT_IP
           else PROTOCOL_TYPE_BIT_UNSUPPORTED)"
  proof (intro impI, elim conjE)
    assume t: "t \<noteq> []" "list_all is_decimal_digit t" "t \<notin> {''1'', ''58'', ''6'', ''17'', ''132''}"
    have "is_decimal_digit (hd t)" using t(1,2) by (auto simp: list_all_iff)
    then have "t \<noteq> ''ip''" "t \<noteq> ''undefined''"
      by (auto simp: is_decimal_digit_def radix_digit_def digit_of_def)
    with t(3) show "getProtocolTypeBit t =
          (if digits_value 10 t < 2 ^ 1024 - 2 ^ 970 then PROTOCOL_TYPE_BIT_IP
           else PROTOCOL_TYPE_BIT_UNSUPPORTED)"
      by (simp add: getProtocolTypeBit_cases js_isIntegerString_digits[OF t(1,2)]
          double_overflow_def)
  qed
  have B: "t \<noteq> [] \<and> list_all is_decimal_digit t \<and> length t \<le> 308
        \<and> t \<notin> {''1'', ''58'', ''6'', ''17'', ''132''} \<longrightarrow>
        getProtocolTypeBit t = PROTOCOL_TYPE_BIT_IP"
  proof (intro impI, elim conjE)
    assume t: "t \<noteq> []" "list_all is_decimal_digit t" "length t \<le> 308"
      "t \<notin> {''1'', ''58'', ''6'', ''17'', ''132''}"
    have "digits_value 10 t < 2 ^ 1024 - 2 ^ 970" using t(2,3) by (rule digits_308)
    with A t show "getProtocolTypeBit t = PROTOCOL_TYPE_BIT_IP" by (simp only: if_True simp_thms)
  qed
  have C: "t \<noteq> ''ip'' \<and> t \<noteq> ''undefined''
        \<and> (\<exists>c \<in> set t. \<not> js_whitespace c \<and> \<not> radix_digit 16 c \<and> c \<notin> set ''xXoO+-.'') \<longrightarrow>
        getProtocolTypeBit t = PROTOCOL_TYPE_BIT_UNSUPPORTED"
  proof (intro impI, elim conjE bexE)
    fix c
    assume t: "t \<noteq> ''ip''" "t \<noteq> ''undefined''" and c: "c \<in> set t" "\<not> js_whitespace c"
      "\<not> radix_digit 16 c" "c \<notin> set ''xXoO+-.''"
    have 1: "\<not> js_isIntegerString t" using js_isIntegerString_chars[of t c] c by blast
    have "\<not> list_all is_decimal_digit t" using digits_radix16[of t c] c by blast
    then have "t \<noteq> ''1''" "t \<noteq> ''58''" "t \<noteq> ''6''" "t \<noteq> ''17''" "t \<noteq> ''132''"
      using five_digit_tokens by blast+
    with t 1 show "getProtocolTypeBit t = PROTOCOL_TYPE_BIT_UNSUPPORTED"
      by (simp add: getProtocolTypeBit_cases)
  qed
  have D: "t \<noteq> ''ip'' \<and> t \<noteq> ''undefined'' \<and> t \<noteq> []
        \<and> \<not> js_whitespace (hd t) \<and> \<not> is_decimal_digit (hd t) \<and> hd t \<notin> set ''+-.'' \<longrightarrow>
        getProtocolTypeBit t = PROTOCOL_TYPE_BIT_UNSUPPORTED"
  proof (intro impI, elim conjE)
    assume t: "t \<noteq> ''ip''" "t \<noteq> ''undefined''" and c: "t \<noteq> []" "\<not> js_whitespace (hd t)"
      "\<not> is_decimal_digit (hd t)" "hd t \<notin> set ''+-.''"
    have 1: "\<not> js_isIntegerString t" using c by (intro js_isIntegerString_first) simp_all
    have "\<not> list_all is_decimal_digit t" using c(1,3) by (cases t) auto
    then have "t \<noteq> ''1''" "t \<noteq> ''58''" "t \<noteq> ''6''" "t \<noteq> ''17''" "t \<noteq> ''132''"
      using five_digit_tokens by blast+
    with t 1 show "getProtocolTypeBit t = PROTOCOL_TYPE_BIT_UNSUPPORTED"
      by (simp add: getProtocolTypeBit_cases)
  qed
  show ?thesis
    by (intro conjI A B C D getProtocolTypeBitsOfArray_snoc)
      (auto simp: getProtocolTypeBit_cases js_isIntegerString_undefined)
qed


text \<open>The statement at the tokens \<open>58\<close>, \<open>17\<close>, \<open>ip\<close>, \<open>undefined\<close>, \<open>89\<close>, \<open>UNKNOWN\<close>,
  \<open>e5\<close> and \<open>1e2\<close>, and at the array \<open>['ip;-', '89;-']\<close>.\<close>

theorem C4_leading_token_bit_witness:
  "getProtocolTypeBit ''58'' = PROTOCOL_TYPE_BIT_ICMP_ICMP6
   \<and> getProtocolTypeBit ''17'' = PROTOCOL_TYPE_BIT_TCP_UDP_SCTP
   \<and> getProtocolTypeBit ''ip'' = PROTOCOL_TYPE_BIT_IP
   \<and> getProtocolTypeBit ''undefined'' = PROTOCOL_TYPE_BIT_NONE
   \<and> getProtocolTypeBit ''89'' = PROTOCOL_TYPE_BIT_IP
   \<and> getProtocolTypeBit ''UNKNOWN'' = PROTOCOL_TYPE_BIT_UNSUPPORTED
   \<and> getProtocolTypeBit ''e5'' = PROTOCOL_TYPE_BIT_UNSUPPORTED
   \<and> getProtocolTypeBit ''1e2'' = PROTOCOL_TYPE_BIT_IP
   \<and> getProtocolTypeBitsOfArray ([''ip;-''] @ [''89;-'']) =
        getProtocolTypeBitsOfArray [''ip;-''] OR getProtocolTypeBit (leadingProtocolToken ''89;-'')"
proof -
  have d: "is_decimal_digit CHR ''8''" "is_decimal_digit CHR ''9''"
    by (simp_all add: is_decimal_digit_def radix_digit_def digit_of_def)
  have v: "digits_value 10 ''89'' < 2 ^ 1024 - 2 ^ 970"
    by (simp add: digits_value_def digit_of_def)
  have k: "\<not> js_whitespace CHR ''K''" "\<not> radix_digit 16 CHR ''K''"
    by (simp_all add: js_whitespace_def radix_digit_def digit_of_def)
  have e: "\<not> js_whitespace CHR ''e''" "\<not> is_decimal_digit CHR ''e''"
    by (simp_all add: js_whitespace_def is_decimal_digit_def radix_digit_def digit_of_def)
  have 1: "getProtocolTypeBit ''58'' = PROTOCOL_TYPE_BIT_ICMP_ICMP6"
    using C4_leading_token_bit[of "''58''"] by simp
  have 2: "getProtocolTypeBit ''17'' = PROTOCOL_TYPE_BIT_TCP_UDP_SCTP"
    using C4_leading_token_bit[of "''17''"] by simp
  have 3: "getProtocolTypeBit ''ip'' = PROTOCOL_TYPE_BIT_IP"
    using C4_leading_token_bit[of "''ip''"] by simp
  have 4: "getProtocolTypeBit ''undefined'' = PROTOCOL_TYPE_BIT_NONE"
    using C4_leading_token_bit[of "''undefined''"] by simp
  have 5: "getProtocolTypeBit ''89'' = PROTOCOL_TYPE_BIT_IP"
    using C4_leading_token_bit[of "''89''"] v by (simp add: d)
  have 6: "getProtocolTypeBit ''UNKNOWN'' = PROTOCOL_TYPE_BIT_UNSUPPORTED"
    using C4_leading_token_bit[of "''UNKNOWN''"] by (simp add: k)
  have 7: "getProtocolTypeBit ''e5'' = PROTOCOL_TYPE_BIT_UNSUPPORTED"
    using C4_leading_token_bit[of "''e5''"] by (simp add: e)
  have 8: "getProtocolTypeBit ''1e2'' = PROTOCOL_TYPE_BIT_IP"
    using C4_leading_token_bit[of "''1e2''"] by (simp add: trim_evals integer_evals)
  have 9: "getProtocolTypeBitsOfArray ([''ip;-''] @ [''89;-'']) =
        getProtocolTypeBitsOfArray [''ip;-''] OR getProtocolTypeBit (leadingProtocolToken ''89;-'')"
    using C4_leading_token_bit[of "[]" "[''ip;-'']" "''89;-''"] by (elim conjE)
  show ?thesis by (intro conjI 1 2 3 4 5 6 7 8 9)
qed

section \<open>IPv4 range to CIDR blocks: the blocks tile the range\<close>

declare js_add.simps(1) [simp del] js_mul.simps(1) [simp del]

lemma js_cmp_Num [simp]:
  "js_le (Num a) (Num b) = (a \<le> b)" "js_gt (Num a) (Num b) = (b < a)"
  "js_ge (Num a) (Num b) = (b \<le> a)" "js_eq (Num a) (Num b) = (a = b)"
  by (auto simp: js_le_def js_gt_def js_ge_def js_eq_def)

lemma floorlog_le_self:
  assumes "0 < m"
  shows "2 ^ (floorlog 2 m - 1) \<le> m"
  using floorlog_bounds[of m 2] assms by simp

lemma trunc_quotient_small:
  assumes "0 < b" "a + b < 2 ^ 52"
  shows "trunc_quotient a b = a div b"
proof -
  define n where "n = a div b"
  define e where "e = floorlog 2 (n + 1) - 1"
  define lo :: nat where "lo = (if n + 1 = 2 ^ e then 2 ^ e else 2 ^ (e + 1))"
  have nb: "n * b \<le> a" by (simp add: n_def)
  have lt: "a < (n + 1) * b"
    using assms(1) unfolding n_def by (metis add.commute dividend_less_times_div mult.commute
        mult_Suc Suc_eq_plus1)
  have n1: "(n + 1) * b < 2 ^ 52" using nb assms(2) by (simp add: algebra_simps)
  have "b \<ge> 1" using assms(1) by simp
  then have "(n + 1) * 1 \<le> (n + 1) * b" by (rule mult_le_mono2)
  then have "n + 1 \<le> (n + 1) * b" by simp
  then have "n + 1 < 2 ^ 52" using n1 by (rule le_less_trans)
  then have n52: "\<not> 2 ^ 52 \<le> n" by simp
  have "2 ^ e \<le> n + 1" unfolding e_def by (rule floorlog_le_self) simp
  then have lo: "lo \<le> 2 * (n + 1)" by (simp add: lo_def)
  have "lo * b \<le> 2 * ((n + 1) * b)" using lo by (metis mult.assoc mult_le_mono1)
  then have lob: "lo * b < 2 ^ 54" using n1 by simp
  have "a + 1 \<le> (n + 1) * b" using lt by simp
  then have "a * 2 ^ 54 + 2 ^ 54 \<le> (n + 1) * b * 2 ^ 54"
    by (metis add_mult_distrib mult_le_mono1 nat_mult_1)
  then have "a * 2 ^ 54 + lo * b < (n + 1) * 2 ^ 54 * b" using lob by (simp add: algebra_simps)
  then have "a * 2 ^ 54 < ((n + 1) * 2 ^ 54 - lo) * b"
    by (simp add: diff_mult_distrib less_diff_conv)
  then have c: "\<not> ((n + 1) * 2 ^ 54 - lo) * b \<le> a * 2 ^ 54" by simp
  show ?thesis
    unfolding trunc_quotient_def Let_def n_def[symmetric] e_def[symmetric] lo_def[symmetric]
    using n52 c by (simp only: if_False)
qed

lemma js_trunc_div_small:
  assumes "0 \<le> x" "0 < k" "x + k < 2 ^ 52"
  shows "js_trunc_div (Num x) (Num k) = Num (x div k)"
proof -
  have "nat x + nat k < 2 ^ 52" using assms by (simp add: nat_add_distrib[symmetric] nat_less_iff)
  then have t: "trunc_quotient (nat \<bar>x\<bar>) (nat \<bar>k\<bar>) = nat x div nat k"
    using assms by (simp add: trunc_quotient_small)
  have d: "int (nat x div nat k) = x div k" using assms by (simp add: zdiv_int)
  have "nat x div nat k \<le> nat x" by simp
  also have "\<dots> < 2 ^ 52" using assms by (simp add: nat_less_iff)
  also have "(2::nat) ^ 52 \<le> 2 ^ 1024" by (intro power_increasing) simp_all
  finally have w: "\<not> 2 ^ 1024 \<le> nat x div nat k" by simp
  have sg: "sgn x * sgn k * (x div k) = x div k"
    using assms by (cases "x = 0") (simp_all add: sgn_if)
  have k0: "k \<noteq> 0" using assms(2) by simp
  show ?thesis
    unfolding js_trunc_div.simps t Let_def d
    by (simp only: k0 w sg if_False)
qed

lemma consecutive_blocks_le: "consecutive_blocks cs s e \<Longrightarrow> s \<le> e + 1"
  by (induction cs arbitrary: s) force+

lemma consecutive_blocks_append:
  "consecutive_blocks xs s (m - 1) \<Longrightarrow> consecutive_blocks ys m e \<Longrightarrow>
   consecutive_blocks (xs @ ys) s e"
  by (induction xs arbitrary: s) auto

lemma consecutive_blocks_union:
  "consecutive_blocks cs s e \<Longrightarrow> (\<Union>c\<in>set cs. cidr_addresses c) = {s..e}"
proof (induction cs arbitrary: s)
  case Nil
  then show ?case by simp
next
  case (Cons c cs)
  then obtain h where h: "s \<le> h" "cidr_addresses c = {s..h}" "consecutive_blocks cs (h + 1) e"
    by auto
  from Cons.IH[OF h(3)] have u: "(\<Union>c\<in>set cs. cidr_addresses c) = {h + 1..e}" .
  from consecutive_blocks_le[OF h(3)] have "h \<le> e" by simp
  with h(1,2) u show ?case by auto
qed

lemma consecutive_blocks_disjoint:
  "consecutive_blocks cs s e \<Longrightarrow> i < j \<Longrightarrow> j < length cs \<Longrightarrow>
   cidr_addresses (cs ! i) \<inter> cidr_addresses (cs ! j) = {}"
proof (induction cs arbitrary: s i j)
  case Nil
  then show ?case by simp
next
  case (Cons c cs)
  then obtain h where h: "s \<le> h" "cidr_addresses c = {s..h}" "consecutive_blocks cs (h + 1) e"
    by auto
  from Cons.prems(2) obtain j' where j': "j = Suc j'" by (cases j) auto
  show ?case
  proof (cases i)
    case 0
    have "cs ! j' \<in> set cs" using Cons.prems(3) j' by simp
    then have "cidr_addresses (cs ! j') \<subseteq> {h + 1..e}"
      using consecutive_blocks_union[OF h(3)] by blast
    with h(2) 0 j' show ?thesis by auto
  next
    case (Suc i')
    with Cons.IH[OF h(3), of i' j'] Cons.prems j' show ?thesis by simp
  qed
qed

lemma int_div_range:
  fixes x k q :: int
  assumes "0 < k"
  shows "(x div k = q) = (k * q \<le> x \<and> x < k * q + k)"
proof
  assume "x div k = q"
  moreover have "x = k * (x div k) + x mod k" by simp
  moreover have "0 \<le> x mod k" "x mod k < k" using assms by simp_all
  ultimately show "k * q \<le> x \<and> x < k * q + k" by (metis add_le_cancel_left add_less_cancel_left
        add.right_neutral)
next
  assume a: "k * q \<le> x \<and> x < k * q + k"
  show "x div k = q"
    by (rule int_div_pos_eq[of x k q "x - k * q"]) (use a in simp_all)
qed

lemma cidr_addresses_token:
  assumes "0 \<le> a" "a < 2 ^ 32" "i \<le> 32" "(2::int) ^ (32 - i) dvd a"
  shows "cidr_addresses (toIPv4AddrString (Num a) @ ''/'' @ nat_toString i)
     = {a..a + 2 ^ (32 - i) - 1}"
proof -
  define k :: int where "k = 2 ^ (32 - i)"
  have k: "0 < k" by (simp add: k_def)
  obtain q where q: "a = k * q" using assms(4) by (auto simp: k_def dvd_def)
  have sp: "js_split CHR ''/'' (toIPv4AddrString (Num a) @ ''/'' @ nat_toString i)
      = [toIPv4AddrString (Num a), nat_toString i]"
    using toIPv4AddrString_no_slash[of "Num a"]
    by (simp add: js_split_append js_split_nosep nat_toString_no_sep)
  have kdvd: "k dvd 2 ^ 32"
    unfolding k_def using assms(3) by (intro le_imp_power_dvd) simp
  then obtain r where r: "(2::int) ^ 32 = k * r" by (auto simp: dvd_def)
  have "k * q < k * r" using assms(2) unfolding q r .
  then have "q < r" using k by (simp add: mult_less_cancel_left_pos)
  then have "q + 1 \<le> r" by simp
  then have "k * (q + 1) \<le> k * r" using k by (simp add: mult_le_cancel_left_pos)
  then have up: "a + k \<le> 2 ^ 32" unfolding q r by (simp add: algebra_simps)
  have adiv: "a div k = q" using k q by simp
  have "{x. 0 \<le> x \<and> x < 2 ^ 32 \<and> x div k = a div k} = {a..a + k - 1}"
    unfolding adiv int_div_range[OF k] using assms(1) up q by auto
  moreover have "i < 2 ^ 53" using assms(3) by (rule le_less_trans) simp
  moreover have "nat (32 - int i) = 32 - i" by simp
  ultimately show ?thesis
    unfolding cidr_addresses_def sp
    using assms(1,2,3)
    by (simp add: js_nth_def toIPv4AddrInteger_toIPv4AddrString js_parseInt_nat_toString k_def)
qed

lemma emitSegments_run:
  assumes "0 < seg" "seg \<le> 2 ^ 32"
  shows "0 \<le> start \<Longrightarrow> start + int n * seg \<le> 2 ^ 33 \<Longrightarrow>
     emitSegments i (Num seg) (Num (start + int n * seg - 1)) (Num start) acc =
     Some (Num (start + int n * seg),
           acc @ map (\<lambda>j. toIPv4AddrString (Num (start + int j * seg)) @ ''/'' @ nat_toString i) [0..<n])"
proof (induction n arbitrary: start acc)
  case 0
  have 1: "js_add (Num start) (Num seg) = Num (start + seg)"
    using assms 0 by (intro js_add_Num) simp
  have 2: "js_sub (Num (start + seg)) (Num 1) = Num (start + seg - 1)"
    using assms 0 by (intro js_sub_Num) simp
  have c: "\<not> start + seg - 1 \<le> start + int 0 * seg - 1" using assms by simp
  show ?case
    apply (subst emitSegments.simps)
    apply (simp only: 1 2 js_cmp_Num c if_False)
    apply simp
    done
next
  case (Suc n)
  have nn: "0 \<le> int n * seg" using assms by simp
  have b: "start + seg \<le> 2 ^ 33" using Suc.prems(2) nn by (simp add: algebra_simps)
  have 1: "js_add (Num start) (Num seg) = Num (start + seg)"
    using assms Suc.prems b by (intro js_add_Num) simp
  have 2: "js_sub (Num (start + seg)) (Num 1) = Num (start + seg - 1)"
    using assms Suc.prems b by (intro js_sub_Num) simp
  have c: "start + seg - 1 \<le> start + int (Suc n) * seg - 1"
    using nn by (simp add: algebra_simps)
  have e: "start + int (Suc n) * seg = (start + seg) + int n * seg"
    by (simp add: algebra_simps)
  have m: "map (\<lambda>j. toIPv4AddrString (Num (start + int j * seg)) @ ''/'' @ nat_toString i) [0..<Suc n] =
      (toIPv4AddrString (Num start) @ ''/'' @ nat_toString i)
        # map (\<lambda>j. toIPv4AddrString (Num (start + seg + int j * seg)) @ ''/'' @ nat_toString i) [0..<n]"
    by (simp add: upt_conv_Cons map_Suc_upt[symmetric] algebra_simps del: upt_Suc)
  have IH: "emitSegments i (Num seg) (Num (start + seg + int n * seg - 1)) (Num (start + seg)) acc' =
     Some (Num (start + seg + int n * seg),
           acc' @ map (\<lambda>j. toIPv4AddrString (Num (start + seg + int j * seg)) @ ''/'' @ nat_toString i) [0..<n])"
    for acc'
    using Suc.prems assms by (intro Suc.IH) (simp_all add: algebra_simps)
  show ?case
    apply (subst emitSegments.simps)
    apply (simp only: 1 2 js_cmp_Num c if_True e IH m)
    using nn apply simp
    done
qed

lemma segments_consecutive:
  assumes "i \<le> 32" "seg = 2 ^ (32 - i)"
  shows "0 \<le> start \<Longrightarrow> seg dvd start \<Longrightarrow> start + int n * seg \<le> 2 ^ 32 \<Longrightarrow>
     consecutive_blocks
       (map (\<lambda>j. toIPv4AddrString (Num (start + int j * seg)) @ ''/'' @ nat_toString i) [0..<n])
       start (start + int n * seg - 1)"
proof (induction n arbitrary: start)
  case 0
  then show ?case by simp
next
  case (Suc n)
  have seg: "0 < seg" using assms by simp
  have nn: "0 \<le> int n * seg" using seg by simp
  have m: "map (\<lambda>j. toIPv4AddrString (Num (start + int j * seg)) @ ''/'' @ nat_toString i) [0..<Suc n] =
      (toIPv4AddrString (Num start) @ ''/'' @ nat_toString i)
        # map (\<lambda>j. toIPv4AddrString (Num (start + seg + int j * seg)) @ ''/'' @ nat_toString i) [0..<n]"
    by (simp add: upt_conv_Cons map_Suc_upt[symmetric] algebra_simps del: upt_Suc)
  have e0: "start + int (Suc n) * seg = start + seg + int n * seg" by (simp add: algebra_simps)
  have lt: "start < 2 ^ 32" using Suc.prems(3) seg nn unfolding e0 by linarith
  have tok: "cidr_addresses (toIPv4AddrString (Num start) @ ''/'' @ nat_toString i)
      = {start..start + seg - 1}"
    unfolding assms(2)
    using Suc.prems lt assms by (intro cidr_addresses_token) simp_all
  have rest: "consecutive_blocks
      (map (\<lambda>j. toIPv4AddrString (Num (start + seg + int j * seg)) @ ''/'' @ nat_toString i) [0..<n])
      (start + seg) (start + seg + int n * seg - 1)"
    using Suc.prems seg by (intro Suc.IH) (simp_all add: algebra_simps)
  have e: "start + int (Suc n) * seg - 1 = start + seg + int n * seg - 1"
    by (simp add: algebra_simps)
  show ?case
    unfolding m e using tok rest seg
    by (auto intro!: exI[of _ "start + seg - 1"])
qed

lemma block_bounds:
  fixes s e k :: int
  assumes "0 < k"
  defines "bs \<equiv> ((s + k - 1) div k) * k" and "be \<equiv> ((e + 1) div k) * k - 1"
  shows "s \<le> bs" "bs < s + k" "be \<le> e" "e - k < be" "k dvd bs" "k dvd (be + 1)"
proof -
  have a: "s + k - 1 = ((s + k - 1) div k) * k + (s + k - 1) mod k" by simp
  have b: "e + 1 = ((e + 1) div k) * k + (e + 1) mod k" by simp
  have m1: "0 \<le> (s + k - 1) mod k" "(s + k - 1) mod k < k" using assms(1) by simp_all
  have m2: "0 \<le> (e + 1) mod k" "(e + 1) mod k < k" using assms(1) by simp_all
  show "s \<le> bs" "bs < s + k" unfolding bs_def using a m1 by linarith+
  show "be \<le> e" "e - k < be" unfolding be_def using b m2 by linarith+
  show "k dvd bs" "k dvd (be + 1)" unfolding bs_def be_def by simp_all
qed

lemma block_values:
  assumes "0 < k" "k \<le> 2 ^ 31" "0 \<le> s" "s \<le> 2 ^ 32" "- 1 \<le> e" "e < 2 ^ 32"
  shows "js_mul (js_trunc_div (js_sub (js_add (Num s) (Num k)) (Num 1)) (Num k)) (Num k)
      = Num (((s + k - 1) div k) * k)"
    and "js_sub (js_mul (js_trunc_div (js_add (Num e) (Num 1)) (Num k)) (Num k)) (Num 1)
      = Num (((e + 1) div k) * k - 1)"
proof -
  note bb = block_bounds(1,2)[OF assms(1), of s] block_bounds(3,4)[OF assms(1), of e]
  have 1: "js_add (Num s) (Num k) = Num (s + k)" using assms by (intro js_add_Num) simp
  have 2: "js_sub (Num (s + k)) (Num 1) = Num (s + k - 1)" using assms by (intro js_sub_Num) simp
  have 3: "js_trunc_div (Num (s + k - 1)) (Num k) = Num ((s + k - 1) div k)"
    using assms by (intro js_trunc_div_small) simp_all
  have 4: "js_mul (Num ((s + k - 1) div k)) (Num k) = Num (((s + k - 1) div k) * k)"
    using assms bb(1,2) by (intro js_mul_Num) simp
  show "js_mul (js_trunc_div (js_sub (js_add (Num s) (Num k)) (Num 1)) (Num k)) (Num k)
      = Num (((s + k - 1) div k) * k)"
    by (simp only: 1 2 3 4)
  have 5: "js_add (Num e) (Num 1) = Num (e + 1)" using assms by (intro js_add_Num) simp
  have 6: "js_trunc_div (Num (e + 1)) (Num k) = Num ((e + 1) div k)"
    using assms by (intro js_trunc_div_small) simp_all
  have 7: "js_mul (Num ((e + 1) div k)) (Num k) = Num (((e + 1) div k) * k)"
    using assms bb(3,4) by (intro js_mul_Num) simp
  have 8: "js_sub (Num (((e + 1) div k) * k)) (Num 1) = Num (((e + 1) div k) * k - 1)"
    using assms bb(3,4) by (intro js_sub_Num) simp
  show "js_sub (js_mul (js_trunc_div (js_add (Num e) (Num 1)) (Num k)) (Num k)) (Num 1)
      = Num (((e + 1) div k) * k - 1)"
    by (simp only: 5 6 7 8)
qed

lemma subnetLoop_end: "32 < i \<Longrightarrow> subnetLoop R i seg s e a = Some a"
  by (subst subnetLoop.simps) simp

lemma half_segment:
  assumes "i \<le> 32"
  shows "js_trunc_div (Num (2 ^ (32 - i))) (Num 2) = Num (2 ^ (32 - i) div 2)"
    and "i < 32 \<Longrightarrow> (2::int) ^ (32 - i) div 2 = 2 ^ (32 - (i + 1))"
proof -
  have "(2::int) ^ (32 - i) \<le> 2 ^ 32" by (intro power_increasing) simp_all
  then show "js_trunc_div (Num (2 ^ (32 - i))) (Num 2) = Num (2 ^ (32 - i) div 2)"
    by (intro js_trunc_div_small) simp_all
  assume "i < 32"
  then have "32 - i = Suc (32 - (i + 1))" by simp
  then show "(2::int) ^ (32 - i) div 2 = 2 ^ (32 - (i + 1))" by simp
qed

lemma segment_size:
  "0 < (2::int) ^ (32 - i)" "1 \<le> i \<Longrightarrow> (2::int) ^ (32 - i) \<le> 2 ^ 31"
proof -
  show "0 < (2::int) ^ (32 - i)" by simp
  assume "1 \<le> i"
  then show "(2::int) ^ (32 - i) \<le> 2 ^ 31" by (intro power_increasing) simp_all
qed

text \<open>One iteration of the loop that finds no aligned block.\<close>

lemma subnetLoop_notfound:
  fixes s e k :: int
  assumes "1 \<le> i" "i \<le> 32" "k = 2 ^ (32 - i)"
    and "0 \<le> s" "s \<le> 2 ^ 32" "- 1 \<le> e" "e < 2 ^ 32"
    and "\<not> ((s + k - 1) div k) * k \<le> ((e + 1) div k) * k - 1"
  shows "subnetLoop R i (Num k) (Num s) (Num e) a =
     subnetLoop R (i + 1) (Num (k div 2)) (Num s) (Num e) a"
proof -
  have k: "0 < k" "k \<le> 2 ^ 31" unfolding assms(3) using segment_size assms(1) by simp_all
  note bv = block_values[OF k assms(4,5,6,7)]
  have h: "js_trunc_div (Num k) (Num 2) = Num (k div 2)"
    unfolding assms(3) by (rule half_segment(1)[OF assms(2)])
  show ?thesis
    apply (subst subnetLoop.simps)
    apply (simp only: Let_def bv js_cmp_Num assms(2,8) if_True if_False h)
    done
qed

text \<open>One iteration of the loop that finds an aligned block: the part of the range
  below the block is left to the recursion, the block is emitted segment by segment, the
  part above the block is left to the recursion, and the remaining iterations of the loop
  are entered with an empty range.\<close>

lemma subnetLoop_found_step:
  fixes s e k :: int
  defines "bs \<equiv> ((s + k - 1) div k) * k"
  defines "be \<equiv> ((e + 1) div k) * k - 1"
  assumes "1 \<le> i" "i \<le> 32" "k = 2 ^ (32 - i)"
    and "0 \<le> s" "s \<le> 2 ^ 32" "- 1 \<le> e" "e < 2 ^ 32"
    and "bs \<le> be"
  shows "subnetLoop R i (Num k) (Num s) (Num e) a =
     do {
       a1 \<leftarrow> (if s < bs then R (Num s) (Num (bs - 1)) a else Some a);
       (intSegStart, a2) \<leftarrow> emitSegments i (Num k) (Num be) (Num bs) a1;
       a3 \<leftarrow> (if be < e then R (Num (be + 1)) (Num e) a2 else Some a2);
       subnetLoop R (i + 1) (Num (k div 2)) intSegStart
         (if be < e then Num be else Num e) a3
     }"
proof -
  have k: "0 < k" "k \<le> 2 ^ 31" unfolding assms(5) using segment_size assms(3) by simp_all
  note bv = block_values[OF k assms(6,7,8,9), folded bs_def be_def]
  note bb = block_bounds(1,2)[OF k(1), of s, folded bs_def]
    block_bounds(3,4)[OF k(1), of e, folded be_def]
  have h: "js_trunc_div (Num k) (Num 2) = Num (k div 2)"
    unfolding assms(5) by (rule half_segment(1)[OF assms(4)])
  have 1: "js_sub (Num bs) (Num 1) = Num (bs - 1)"
    using bb(1,2) assms(6,7) k by (intro js_sub_Num) simp
  have 2: "js_add (Num be) (Num 1) = Num (be + 1)"
    using bb(3,4) assms(8,9) k by (intro js_add_Num) simp
  show ?thesis
    apply (subst subnetLoop.simps)
    apply (simp only: Let_def bv js_cmp_Num js_lt.simps assms(4,10) if_True 1 2 h)
    done
qed

lemma subnetLoop_done:
  fixes s e :: int
  assumes "0 \<le> s" "s \<le> 2 ^ 32" "- 1 \<le> e" "e < s"
  shows "1 \<le> i \<Longrightarrow> (i \<le> 32 \<longrightarrow> k = 2 ^ (32 - i)) \<Longrightarrow>
     subnetLoop R i (Num k) (Num s) (Num e) a = Some a"
proof (induction "33 - i" arbitrary: i k)
  case 0
  then show ?case by (intro subnetLoop_end) simp
next
  case (Suc n)
  then have i: "i \<le> 32" "k = 2 ^ (32 - i)" by simp_all
  have k: "0 < k" unfolding i(2) by simp
  have e: "e < 2 ^ 32" using assms by simp
  have nb: "\<not> ((s + k - 1) div k) * k \<le> ((e + 1) div k) * k - 1"
    using block_bounds(1)[OF k, of s] block_bounds(3)[OF k, of e] assms(4) by linarith
  have "subnetLoop R i (Num k) (Num s) (Num e) a =
     subnetLoop R (i + 1) (Num (k div 2)) (Num s) (Num e) a"
    using Suc.prems(1) i assms(1,2,3) e nb by (rule subnetLoop_notfound)
  also have "\<dots> = Some a"
    using Suc.hyps(2) Suc.prems(1) half_segment(2)[of i] i
    by (intro Suc.hyps(1)) auto
  finally show ?case .
qed

text \<open>The iteration that finds an aligned block, with the block's segments emitted.\<close>

lemma subnetLoop_found:
  fixes s e k :: int
  defines "bs \<equiv> ((s + k - 1) div k) * k"
  defines "be \<equiv> ((e + 1) div k) * k - 1"
  assumes "1 \<le> i" "i \<le> 32" "k = 2 ^ (32 - i)"
    and "0 \<le> s" "s \<le> e" "e < 2 ^ 32"
    and "bs \<le> be"
  shows "\<exists>m. consecutive_blocks m bs be \<and>
     (\<forall>R a. subnetLoop R i (Num k) (Num s) (Num e) a =
       do {
         a1 \<leftarrow> (if s < bs then R (Num s) (Num (bs - 1)) a else Some a);
         (if be < e then R (Num (be + 1)) (Num e) (a1 @ m) else Some (a1 @ m))
       })"
proof -
  have k: "0 < k" "k \<le> 2 ^ 31" unfolding assms(5) using segment_size assms(3) by simp_all
  note bb = block_bounds(1,2,5)[OF k(1), of s, folded bs_def]
    block_bounds(3,4,6)[OF k(1), of e, folded be_def]
  from bb(3,6) obtain p q where pq: "bs = k * p" "be + 1 = k * q" by (auto simp: dvd_def)
  have "k * p < k * q" using assms(9) pq by simp
  then have "p < q" using k(1) by (simp add: mult_less_cancel_left_pos)
  define n where "n = nat (q - p)"
  have n: "be = bs + int n * k - 1" using \<open>p < q\<close> pq by (simp add: n_def algebra_simps)
  define m where
    "m = map (\<lambda>j. toIPv4AddrString (Num (bs + int j * k)) @ ''/'' @ nat_toString i) [0..<n]"
  have bs0: "0 \<le> bs" using bb(1) assms(6) by simp
  have be32: "bs + int n * k \<le> 2 ^ 32" using bb(4) assms(8) n by simp
  have mid: "emitSegments i (Num k) (Num be) (Num bs) a1 = Some (Num (be + 1), a1 @ m)" for a1
    unfolding n m_def using emitSegments_run[OF k(1), of bs n i a1] k(2) bs0 be32 by simp
  have mc: "consecutive_blocks m bs be"
    unfolding m_def n
    using segments_consecutive[OF assms(4,5), of bs n] bb(3) bs0 be32 by simp
  have rest: "subnetLoop R (i + 1) (Num (k div 2)) (Num (be + 1))
      (if be < e then Num be else Num e) a3 = Some a3" for R a3
  proof -
    have "(if be < e then Num be else Num e) = Num be" using bb(4) by simp
    moreover have "subnetLoop R (i + 1) (Num (k div 2)) (Num (be + 1)) (Num be) a3 = Some a3"
      using bs0 assms(9) bb(4) assms(8) half_segment(2)[of i] assms(5)
      by (intro subnetLoop_done) auto
    ultimately show ?thesis by simp
  qed
  have "subnetLoop R i (Num k) (Num s) (Num e) a =
       do {
         a1 \<leftarrow> (if s < bs then R (Num s) (Num (bs - 1)) a else Some a);
         (if be < e then R (Num (be + 1)) (Num e) (a1 @ m) else Some (a1 @ m))
       }" for R a
  proof -
    have e1: "- 1 \<le> e" "s \<le> 2 ^ 32" using assms(6,7,8) by simp_all
    have rest': "subnetLoop R (i + 1) (Num (k div 2)) (Num (be + 1))
        (if be < e then Num be else Num e) = Some"
      by (rule ext) (rule rest)
    show ?thesis
      unfolding subnetLoop_found_step[OF assms(3,4,5,6) e1(2,1) assms(8),
          folded bs_def be_def, OF assms(9)]
      by (simp only: mid prod.case bind.bind_lunit rest') simp
  qed
  with mc show ?thesis by blast
qed

lemma subnetLoop_search:
  fixes s e :: int
  assumes tiles: "\<And>s' e' a'. s \<le> s' \<Longrightarrow> s' \<le> e' \<Longrightarrow> e' \<le> e \<Longrightarrow> e' - s' < e - s \<Longrightarrow>
      \<exists>out. R (Num s') (Num e') a' = Some (a' @ out) \<and> consecutive_blocks out s' e'"
    and "0 \<le> s" "s \<le> e" "e < 2 ^ 32"
  shows "1 \<le> i \<Longrightarrow> i \<le> 32 \<Longrightarrow>
     \<exists>out. subnetLoop R i (Num (2 ^ (32 - i))) (Num s) (Num e) a = Some (a @ out)
       \<and> consecutive_blocks out s e"
proof (induction d \<equiv> "32 - i" arbitrary: i rule: less_induct)
  case less
  define k :: int where "k = 2 ^ (32 - i)"
  define bs where "bs = ((s + k - 1) div k) * k"
  define be where "be = ((e + 1) div k) * k - 1"
  have k: "0 < k" by (simp add: k_def)
  note bb = block_bounds(1,2)[OF k, of s, folded bs_def]
    block_bounds(3,4)[OF k, of e, folded be_def]
  show ?case
  proof (cases "bs \<le> be")
    case True
    from subnetLoop_found[OF less.prems k_def assms(2,3,4), folded bs_def be_def, OF True]
    obtain m where m: "consecutive_blocks m bs be"
      "\<And>R a. subnetLoop R i (Num k) (Num s) (Num e) a =
         do {
           a1 \<leftarrow> (if s < bs then R (Num s) (Num (bs - 1)) a else Some a);
           (if be < e then R (Num (be + 1)) (Num e) (a1 @ m) else Some (a1 @ m))
         }" by blast
    have "\<exists>l. (if s < bs then R (Num s) (Num (bs - 1)) a else Some a) = Some (a @ l)
        \<and> consecutive_blocks l s (bs - 1)"
    proof (cases "s < bs")
      case True
      have "s \<le> s" "s \<le> bs - 1" "bs - 1 \<le> e" "(bs - 1) - s < e - s"
        using True \<open>bs \<le> be\<close> bb(3) by simp_all
      from tiles[OF this, of a] show ?thesis using True by simp
    next
      case False
      then have "s = bs" using bb(1) by simp
      with False show ?thesis by simp
    qed
    then obtain l where l: "(if s < bs then R (Num s) (Num (bs - 1)) a else Some a) = Some (a @ l)"
      "consecutive_blocks l s (bs - 1)" by blast
    have "\<exists>r. (if be < e then R (Num (be + 1)) (Num e) ((a @ l) @ m) else Some ((a @ l) @ m))
        = Some (((a @ l) @ m) @ r) \<and> consecutive_blocks r (be + 1) e"
    proof (cases "be < e")
      case True
      have "s \<le> be + 1" "be + 1 \<le> e" "e \<le> e" "e - (be + 1) < e - s"
        using True \<open>bs \<le> be\<close> bb(1) by simp_all
      from tiles[OF this, of "(a @ l) @ m"] show ?thesis using True by simp
    next
      case False
      then have "be = e" using bb(3) by simp
      with False show ?thesis by simp
    qed
    then obtain r where r:
      "(if be < e then R (Num (be + 1)) (Num e) ((a @ l) @ m) else Some ((a @ l) @ m))
        = Some (((a @ l) @ m) @ r)"
      "consecutive_blocks r (be + 1) e" by blast
    have "subnetLoop R i (Num k) (Num s) (Num e) a = Some (a @ (l @ m @ r))"
      unfolding m(2) l(1) bind.bind_lunit r(1) by simp
    moreover have "consecutive_blocks (l @ m @ r) s e"
      using l(2) m(1) r(2)
      by (intro consecutive_blocks_append[of l s bs] consecutive_blocks_append[of m bs "be + 1"])
         simp_all
    ultimately show ?thesis unfolding k_def by blast
  next
    case False
    have "i \<noteq> 32"
    proof
      assume "i = 32"
      then have "k = 1" by (simp add: k_def)
      then have "bs = s" "be = e" by (simp_all add: bs_def be_def)
      with False assms(3) show False by simp
    qed
    then have i: "i < 32" using less.prems by simp
    have half: "k div 2 = 2 ^ (32 - (i + 1))"
      unfolding k_def using i by (intro half_segment(2)) simp_all
    have "\<exists>out. subnetLoop R (i + 1) (Num (2 ^ (32 - (i + 1)))) (Num s) (Num e) a = Some (a @ out)
        \<and> consecutive_blocks out s e"
      using i less.prems by (intro less.hyps) simp_all
    then obtain out where out: "subnetLoop R (i + 1) (Num (k div 2)) (Num s) (Num e) a = Some (a @ out)"
      "consecutive_blocks out s e" unfolding half by blast
    have e1: "- 1 \<le> e" "s \<le> 2 ^ 32" using assms(2,3,4) by simp_all
    have "subnetLoop R i (Num k) (Num s) (Num e) a = Some (a @ out)"
      using subnetLoop_notfound[OF less.prems k_def assms(2) e1(2,1) assms(4),
          folded bs_def be_def, OF False, of R a] out(1) by simp
    with out(2) show ?thesis unfolding k_def by blast
  qed
qed

lemma makeIPv4SubnetFromRange_blocks:
  fixes s e :: int
  shows "0 \<le> s \<Longrightarrow> s \<le> e \<Longrightarrow> e < 2 ^ 32 \<Longrightarrow>
   \<exists>out. makeIPv4SubnetFromRange (Num s) (Num e) a = Some (a @ out) \<and> consecutive_blocks out s e"
proof (induction d \<equiv> "nat (e - s)" arbitrary: s e a rule: less_induct)
  case less
  have tiles: "\<exists>out. makeIPv4SubnetFromRange (Num s') (Num e') a' = Some (a' @ out)
      \<and> consecutive_blocks out s' e'"
    if "s \<le> s'" "s' \<le> e'" "e' \<le> e" "e' - s' < e - s" for s' e' a'
    using that less.prems by (intro less.hyps) simp_all
  from subnetLoop_search[of s e makeIPv4SubnetFromRange 1 a, OF tiles less.prems]
  show ?case by (subst makeIPv4SubnetFromRange.simps) simp
qed

lemma subnetLoop_agree:
  fixes s e :: int
  assumes agree: "\<And>s' e' a'. s \<le> s' \<Longrightarrow> s' \<le> e' \<Longrightarrow> e' \<le> e \<Longrightarrow> e' - s' < e - s \<Longrightarrow>
      R (Num s') (Num e') a' = R' (Num s') (Num e') a'"
    and "0 \<le> s" "s \<le> e" "e < 2 ^ 32"
  shows "1 \<le> i \<Longrightarrow> i \<le> 32 \<Longrightarrow>
     subnetLoop R i (Num (2 ^ (32 - i))) (Num s) (Num e) a =
     subnetLoop R' i (Num (2 ^ (32 - i))) (Num s) (Num e) a"
proof (induction d \<equiv> "32 - i" arbitrary: i rule: less_induct)
  case less
  define k :: int where "k = 2 ^ (32 - i)"
  define bs where "bs = ((s + k - 1) div k) * k"
  define be where "be = ((e + 1) div k) * k - 1"
  have k: "0 < k" by (simp add: k_def)
  note bb = block_bounds(1,2)[OF k, of s, folded bs_def]
    block_bounds(3,4)[OF k, of e, folded be_def]
  show ?case
  proof (cases "bs \<le> be")
    case True
    from subnetLoop_found[OF less.prems k_def assms(2,3,4), folded bs_def be_def, OF True]
    obtain m where m:
      "\<And>R a. subnetLoop R i (Num k) (Num s) (Num e) a =
         do {
           a1 \<leftarrow> (if s < bs then R (Num s) (Num (bs - 1)) a else Some a);
           (if be < e then R (Num (be + 1)) (Num e) (a1 @ m) else Some (a1 @ m))
         }" by blast
    have L: "(if s < bs then R (Num s) (Num (bs - 1)) a else Some a) =
        (if s < bs then R' (Num s) (Num (bs - 1)) a else Some a)"
    proof (cases "s < bs")
      case True
      have "s \<le> s" "s \<le> bs - 1" "bs - 1 \<le> e" "(bs - 1) - s < e - s"
        using True \<open>bs \<le> be\<close> bb(3) by simp_all
      from agree[OF this, of a] show ?thesis by simp
    qed simp
    have Rr: "(if be < e then R (Num (be + 1)) (Num e) x else Some x) =
        (if be < e then R' (Num (be + 1)) (Num e) x else Some x)" for x
    proof (cases "be < e")
      case True
      have "s \<le> be + 1" "be + 1 \<le> e" "e \<le> e" "e - (be + 1) < e - s"
        using True \<open>bs \<le> be\<close> bb(1) by simp_all
      from agree[OF this, of x] show ?thesis by simp
    qed simp
    show ?thesis
      unfolding k_def[symmetric] m L Rr by (rule refl)
  next
    case False
    have "i \<noteq> 32"
    proof
      assume "i = 32"
      then have "k = 1" by (simp add: k_def)
      then have "bs = s" "be = e" by (simp_all add: bs_def be_def)
      with False assms(3) show False by simp
    qed
    then have i: "i < 32" using less.prems by simp
    have half: "k div 2 = 2 ^ (32 - (i + 1))"
      unfolding k_def using i by (intro half_segment(2)) simp_all
    have IH: "subnetLoop R (i + 1) (Num (k div 2)) (Num s) (Num e) a =
        subnetLoop R' (i + 1) (Num (k div 2)) (Num s) (Num e) a"
      unfolding half using i less.prems by (intro less.hyps) simp_all
    have e1: "- 1 \<le> e" "s \<le> 2 ^ 32" using assms(2,3,4) by simp_all
    note nf = subnetLoop_notfound[OF less.prems k_def assms(2) e1(2,1) assms(4),
          folded bs_def be_def, OF False]
    show ?thesis unfolding k_def[symmetric] nf IH by (rule refl)
  qed
qed

lemma consecutive_blocks_nonempty:
  "consecutive_blocks cs s e \<Longrightarrow> c \<in> set cs \<Longrightarrow> cidr_addresses c \<noteq> {}"
proof (induction cs arbitrary: s)
  case Nil
  then show ?case by simp
next
  case (Cons d cs)
  then obtain h where h: "s \<le> h" "cidr_addresses d = {s..h}" "consecutive_blocks cs (h + 1) e"
    by auto
  show ?case
  proof (cases "c = d")
    case True
    with h(1,2) show ?thesis by simp
  next
    case False
    with Cons.prems(2) have "c \<in> set cs" by simp
    with Cons.IH[OF h(3)] show ?thesis by simp
  qed
qed

text \<open>
  C5: for integers \<open>0 \<le> s \<le> e \<le> 2^32 - 1\<close> the call
  \<open>makeIPv4SubnetFromRange(s, e, a)\<close> returns, having appended to \<open>a\<close> CIDR blocks that
  each denote some address, are pairwise disjoint as address sets, and whose union is
  exactly the interval \<open>{s, ..., e}\<close>.
\<close>

theorem C5_range_blocks_partition:
  fixes s e :: int
  assumes "0 \<le> s" "s \<le> e" "e \<le> 2 ^ 32 - 1"
  shows "\<exists>out. makeIPv4SubnetFromRange (Num s) (Num e) a = Some (a @ out)
     \<and> (\<Union>c\<in>set out. cidr_addresses c) = {s..e}
     \<and> (\<forall>i j. i < j \<and> j < length out \<longrightarrow>
           cidr_addresses (out ! i) \<inter> cidr_addresses (out ! j) = {})
     \<and> (\<forall>c\<in>set out. cidr_addresses c \<noteq> {})"
proof -
  have "e < 2 ^ 32" using assms(3) by simp
  from makeIPv4SubnetFromRange_blocks[OF assms(1,2) this, of a]
  obtain out where out: "makeIPv4SubnetFromRange (Num s) (Num e) a = Some (a @ out)"
    "consecutive_blocks out s e" by blast
  show ?thesis
    using out(1) consecutive_blocks_union[OF out(2)] consecutive_blocks_disjoint[OF out(2)]
      consecutive_blocks_nonempty[OF out(2)]
    by (intro exI[of _ out]) simp
qed

text \<open>C5 at the range \<open>192.168.0.1\<close> to \<open>192.168.100.100\<close> of the function's
  documentation.\<close>

theorem C5_range_blocks_partition_witness:
  "\<exists>out. makeIPv4SubnetFromRange (Num 3232235521) (Num 3232261220) [] = Some ([] @ out)
     \<and> (\<Union>c\<in>set out. cidr_addresses c) = {3232235521..3232261220}
     \<and> (\<forall>i j. i < j \<and> j < length out \<longrightarrow>
           cidr_addresses (out ! i) \<inter> cidr_addresses (out ! j) = {})
     \<and> (\<forall>c\<in>set out. cidr_addresses c \<noteq> {})"
  by (rule C5_range_blocks_partition) simp_all

text \<open>
  C10: for integers \<open>0 \<le> start \<le> end \<le> 2^32 - 1\<close> the call
  \<open>makeIPv4SubnetFromRange(start, end, a)\<close> returns, and its recursive calls are made on
  strictly smaller subranges of \<open>[start, end]\<close> only: the body of the function gives the
  same result with any two functions in the place of the recursive calls that agree on
  the ranges \<open>[s', e']\<close> with \<open>start \<le> s' \<le> e' \<le> end\<close> and \<open>e' - s' < end - start\<close>.
\<close>

theorem C10_range_recursion_terminates:
  fixes s e :: int
  assumes "0 \<le> s" "s \<le> e" "e \<le> 2 ^ 32 - 1"
  shows "(\<exists>out. makeIPv4SubnetFromRange (Num s) (Num e) a = Some out)
     \<and> (\<forall>R R'. (\<forall>s' e' a'. s \<le> s' \<and> s' \<le> e' \<and> e' \<le> e \<and> e' - s' < e - s \<longrightarrow>
                   R (Num s') (Num e') a' = R' (Num s') (Num e') a') \<longrightarrow>
            subnetLoop R 1 (Num 2147483648) (Num s) (Num e) a =
            subnetLoop R' 1 (Num 2147483648) (Num s) (Num e) a)"
proof (intro conjI allI impI)
  have e: "e < 2 ^ 32" using assms(3) by simp
  from makeIPv4SubnetFromRange_blocks[OF assms(1,2) e, of a]
  show "\<exists>out. makeIPv4SubnetFromRange (Num s) (Num e) a = Some out" by blast
  fix R R' :: "js_number \<Rightarrow> js_number \<Rightarrow> string list \<Rightarrow> string list option"
  assume "\<forall>s' e' a'. s \<le> s' \<and> s' \<le> e' \<and> e' \<le> e \<and> e' - s' < e - s \<longrightarrow>
     R (Num s') (Num e') a' = R' (Num s') (Num e') a'"
  then have agree: "\<And>s' e' a'. s \<le> s' \<Longrightarrow> s' \<le> e' \<Longrightarrow> e' \<le> e \<Longrightarrow> e' - s' < e - s \<Longrightarrow>
      R (Num s') (Num e') a' = R' (Num s') (Num e') a'" by blast
  have "subnetLoop R 1 (Num (2 ^ (32 - 1))) (Num s) (Num e) a =
      subnetLoop R' 1 (Num (2 ^ (32 - 1))) (Num s) (Num e) a"
    using agree assms(1,2) e by (rule subnetLoop_agree) simp_all
  then show "subnetLoop R 1 (Num 2147483648) (Num s) (Num e) a =
      subnetLoop R' 1 (Num 2147483648) (Num s) (Num e) a" by simp
qed

text \<open>C10 at the range \<open>192.168.0.1\<close> to \<open>192.168.100.100\<close>: the call returns, and its body
  gives the same result when the recursive calls go to a function that does not return
  on that range itself.\<close>

theorem C10_range_recursion_terminates_witness:
  "(\<exists>out. makeIPv4SubnetFromRange (Num 3232235521) (Num 3232261220) [] = Some out)
   \<and> subnetLoop makeIPv4SubnetFromRange 1 (Num 2147483648) (Num 3232235521) (Num 3232261220) [] =
     subnetLoop
       (\<lambda>x y a. if x = Num 3232235521 \<and> y = Num 3232261220 then None
                else makeIPv4SubnetFromRange x y a)
       1 (Num 2147483648) (Num 3232235521) (Num 3232261220) []"
proof -
  note T = C10_range_recursion_terminates[of 3232235521 3232261220 "[]"]
  have h: "(0::int) \<le> 3232235521" "(3232235521::int) \<le> 3232261220" "(3232261220::int) \<le> 2 ^ 32 - 1"
    by simp_all
  from T[OF h] have 1: "\<exists>out. makeIPv4SubnetFromRange (Num 3232235521) (Num 3232261220) [] = Some out"
    by (rule conjunct1)
  from T[OF h] have 2: "\<forall>R R'. (\<forall>s' e' a'. 3232235521 \<le> s' \<and> s' \<le> e' \<and> e' \<le> 3232261220
          \<and> e' - s' < 3232261220 - 3232235521 \<longrightarrow>
                   R (Num s') (Num e') a' = R' (Num s') (Num e') a') \<longrightarrow>
            subnetLoop R 1 (Num 2147483648) (Num 3232235521) (Num 3232261220) [] =
            subnetLoop R' 1 (Num 2147483648) (Num 3232235521) (Num 3232261220) []"
    by (rule conjunct2)
  have "subnetLoop makeIPv4SubnetFromRange 1 (Num 2147483648) (Num 3232235521) (Num 3232261220) [] =
     subnetLoop
       (\<lambda>x y a. if x = Num 3232235521 \<and> y = Num 3232261220 then None
                else makeIPv4SubnetFromRange x y a)
       1 (Num 2147483648) (Num 3232235521) (Num 3232261220) []"
    by (rule 2[rule_format]) auto
  with 1 show ?thesis by (rule conjI)
qed


end
